theory Spec2Isabelle
  imports Main "HOL-Library.Word"
begin

section \<open>Path utilities (path\_util.h, path\_util.cc)\<close>

text \<open>
  The path separator is chosen at compile time (\<^verbatim>\<open>#ifdef _WIN32\<close>); the build target is a
  parameter of the model. Paths are byte strings (\<^verbatim>\<open>boost::string_ref\<close>), modelled as
  \<^typ>\<open>string\<close>.
\<close>

datatype platform = Posix | Win32

definition path_separator :: "platform \<Rightarrow> char" where
  "path_separator pl = (case pl of Win32 \<Rightarrow> CHR 0x5C | Posix \<Rightarrow> CHR ''/'')"

text \<open>
  \<^verbatim>\<open>string_ref::find_first_of(c)\<close>: the position of the first occurrence of \<open>c\<close>,
  or \<^verbatim>\<open>npos\<close> (here \<open>None\<close>).
\<close>

fun find_first_of :: "string \<Rightarrow> char \<Rightarrow> nat option" where
  "find_first_of [] c = None"
| "find_first_of (x # xs) c =
     (if x = c then Some 0
      else (case find_first_of xs c of None \<Rightarrow> None | Some pos \<Rightarrow> Some (Suc pos)))"

lemma find_first_of_less: "find_first_of path c = Some pos \<Longrightarrow> pos < length path"
  by (induction path arbitrary: pos) (auto split: if_splits option.splits)

text \<open>
  \<^verbatim>\<open>path_components_of\<close>: the \<^verbatim>\<open>while (true)\<close> loop, with the vector \<open>parts\<close> as an
  accumulator. \<^verbatim>\<open>path.substr(0, len)\<close> is \<open>take len path\<close> and
  \<^verbatim>\<open>path.remove_prefix(len)\<close> is \<open>drop len path\<close>.
\<close>

function path_components_loop :: "platform \<Rightarrow> string \<Rightarrow> string list \<Rightarrow> string list" where
  "path_components_loop pl path parts =
     (case find_first_of path (path_separator pl) of
        None \<Rightarrow> (if path \<noteq> [] then parts @ [path] else parts)
      | Some pos \<Rightarrow>
          (let len = pos + 1
           in path_components_loop pl (drop len path) (parts @ [take len path])))"
  by pat_completeness auto
termination
  by (relation "measure (\<lambda>(pl, path, parts). length path)")
     (auto dest: find_first_of_less)

declare path_components_loop.simps [simp del]

definition path_components_of :: "platform \<Rightarrow> string \<Rightarrow> string list" where
  "path_components_of pl path = path_components_loop pl path []"

text \<open>
  \<^verbatim>\<open>common_prefix\<close>: the two iterators advance together while the elements are equal;
  \<open>n\<close> is \<^verbatim>\<open>common_ancestors\<close>.
\<close>

fun common_prefix_loop :: "'a list \<Rightarrow> 'a list \<Rightarrow> nat \<Rightarrow> nat" where
  "common_prefix_loop (a # x) (b # y) n =
     (if a \<noteq> b then n else common_prefix_loop x y (Suc n))"
| "common_prefix_loop x y n = n"

definition common_prefix :: "'a list \<Rightarrow> 'a list \<Rightarrow> nat" where
  "common_prefix x y = common_prefix_loop x y 0"

text \<open>
  \<^verbatim>\<open>path_distance_between\<close> computes in \<^verbatim>\<open>std::size_t\<close>, an unsigned 64-bit integer whose
  subtraction wraps around. (\<^verbatim>\<open>CharCount\<close> is declared in str\_util.h, which is not part of
  the sources at hand; the result is kept in \<^verbatim>\<open>std::size_t\<close>.)
\<close>

type_synonym size_t = "64 word"

definition path_distance_between :: "string list \<Rightarrow> string list \<Rightarrow> size_t" where
  "path_distance_between x y =
     of_nat (length x) + of_nat (length y) - 2 * of_nat (common_prefix x y)"

section \<open>The number of worker threads (python\_extension\_main.cc)\<close>

text \<open>
  \<^verbatim>\<open>get_nr_threads\<close>. \<^verbatim>\<open>Thread::hardware_concurrency()\<close> is declared in par\_util.h (not
  part of the sources at hand); its value \<open>hc\<close> is a parameter, an \<^verbatim>\<open>unsigned int\<close> as
  \<^verbatim>\<open>std::thread::hardware_concurrency\<close> returns. The local \<^verbatim>\<open>nr_threads\<close> is a
  \<^verbatim>\<open>std::size_t\<close>, converted back to \<^verbatim>\<open>unsigned int\<close> on return.
\<close>

type_synonym c_uint = "32 word"
type_synonym c_int = "32 word"

definition get_nr_threads :: "c_uint \<Rightarrow> c_uint \<Rightarrow> c_uint" where
  "get_nr_threads hc max_threads =
     (let nr_threads0 = (ucast hc :: size_t);
          nr_threads1 = (if nr_threads0 = 0 then 1 else nr_threads0);
          nr_threads2 = (if max_threads \<noteq> 0 \<and> nr_threads1 > ucast max_threads
                         then ucast max_threads else nr_threads1)
      in ucast nr_threads2)"

section \<open>The request driver (python\_extension\_main.cc, \<^verbatim>\<open>cpsm_ctrlp_match\<close>)\<close>

subsection \<open>Host objects and the arguments of a request\<close>

text \<open>
  A host object is a byte string or something else; \<^verbatim>\<open>PyString_AsStringAndSize\<close> yields
  the bytes of the former and fails (a negative return, with the host's error set) on the
  latter. An \<^verbatim>\<open>Item\<close> pairs the bytes with the object they belong to.
\<close>

datatype pyobject = PyString string | PyOther

fun PyString_AsStringAndSize :: "pyobject \<Rightarrow> string option" where
  "PyString_AsStringAndSize (PyString s) = Some s"
| "PyString_AsStringAndSize PyOther = None"

type_synonym Item = "string \<times> pyobject"

text \<open>
  A host iterator, as the sequence of what it does when it is asked for its next element:
  it hands out an object, or it raises. \<^verbatim>\<open>PyIter_Next\<close> returns the object in the first
  case; it returns \<^verbatim>\<open>NULL\<close> (here \<open>None\<close>) when the iterator raised, with the host's error
  set, and when nothing is left, with no error set.
\<close>

datatype pull = Yield pyobject | Raise

type_synonym pyiter = "pull list"

fun PyIter_Next :: "pyiter \<Rightarrow> pyobject option \<times> pyiter" where
  "PyIter_Next [] = (None, [])"
| "PyIter_Next (Yield obj # rest) = (Some obj, rest)"
| "PyIter_Next (Raise # rest) = (None, rest)"

lemma PyIter_Next_length: "PyIter_Next iter = (r, iter') \<Longrightarrow> length iter' \<le> length iter"
  by (cases iter rule: PyIter_Next.cases) auto

lemma PyIter_Next_Some_length:
  "PyIter_Next iter = (Some obj, iter') \<Longrightarrow> length iter' < length iter"
  by (cases iter rule: PyIter_Next.cases) auto

text \<open>
  The arguments as \<^verbatim>\<open>PyArg_ParseTupleAndKeywords\<close> leaves them (the model starts where
  parsing has succeeded). \<open>items_obj\<close> holds what \<^verbatim>\<open>PyObject_GetIter\<close> gives for the
  \<^verbatim>\<open>items\<close> argument: \<open>None\<close> when the object is not iterable, otherwise the iterator.
\<close>

record args =
  items_obj :: "pyiter option"
  query_data :: string
  limit_int :: c_int
  mmode_data :: string
  is_path :: c_int
  cur_file_data :: string
  highlight_mode_data :: string
  match_crfile :: c_int
  max_threads_int :: c_int
  query_inverting_delimiter_data :: string
  unicode :: c_int

text \<open>What the entry point hands back to the host.\<close>

datatype py_return =
    Result "pyobject list" "string list"  \<comment> \<open>the output tuple: matches and highlight regexes\<close>
  | RuntimeError string  \<comment> \<open>\<^verbatim>\<open>PyErr_SetString(PyExc_RuntimeError, ex.what())\<close>, then \<^verbatim>\<open>nullptr\<close>\<close>
  | HostError  \<comment> \<open>\<^verbatim>\<open>nullptr\<close> with the host's own error left in place\<close>

subsection \<open>Collaborators declared in headers that are not part of the sources at hand\<close>

text \<open>
  \<^verbatim>\<open>Match<Item>\<close> (match.h) holds the item and the score the matcher computed; the score
  type is a parameter.
\<close>

datatype 's match = Match (item: Item) (score: 's)

datatype MatcherOpts =
  MatcherOpts (mopts_cur_file: string) (mopts_is_path: bool) (mopts_match_crfile: bool)

text \<open>
  \<^verbatim>\<open>Matcher::match(item_str, m, match_positions, ...)\<close>: the second argument of the model
  says whether a set of match positions is asked for. \<open>Inl msg\<close> is a thrown
  \<^verbatim>\<open>Error\<close>, \<open>Inr None\<close> is \<^verbatim>\<open>false\<close>, \<open>Inr (Some (score, positions))\<close> is \<^verbatim>\<open>true\<close>.
\<close>

type_synonym 's matcher = "string \<Rightarrow> bool \<Rightarrow> string + ('s \<times> nat set) option"

text \<open>
  A substring function (ctrlp\_util.h) maps an item to a view inside it: the offset of the
  view and its bytes.
\<close>

type_synonym substr_fn = "(string \<Rightarrow> nat \<times> string) option"

text \<open>
  What the driver calls and the sources at hand do not define, as parameters of the model:
  the hardware concurrency (par\_util.h), \<^verbatim>\<open>str_split\<close> and \<^verbatim>\<open>str_join\<close> (str\_util.h),
  the construction of a \<^verbatim>\<open>Matcher\<close> from the query, the matcher options and the unicode
  flag (matcher.h), \<^verbatim>\<open>match_mode_item_substr_fn\<close> (ctrlp\_util.h), \<^verbatim>\<open>operator<\<close> on matches
  (match.h) and \<^verbatim>\<open>get_highlight_regexes\<close> (ctrlp\_util.h), which appends to the regexes it
  is given. Those that return a sum may throw an \<^verbatim>\<open>Error\<close> (\<open>Inl\<close> its message).
\<close>

record 's env =
  hardware_concurrency :: c_uint
  str_split :: "string \<Rightarrow> char \<Rightarrow> string list"
  str_join :: "string list \<Rightarrow> string \<Rightarrow> string"
  new_Matcher :: "string \<Rightarrow> MatcherOpts \<Rightarrow> bool \<Rightarrow> string + 's matcher"
  match_mode_item_substr_fn :: "string \<Rightarrow> string + substr_fn"
  match_less :: "'s match \<Rightarrow> 's match \<Rightarrow> bool"
  get_highlight_regexes :: "string \<Rightarrow> string \<Rightarrow> nat set \<Rightarrow> string list \<Rightarrow> string + string list"

text \<open>\<^verbatim>\<open>std::sort\<close> under an order \<open>lt\<close>, as an insertion sort.\<close>

fun insert_by :: "('a \<Rightarrow> 'a \<Rightarrow> bool) \<Rightarrow> 'a \<Rightarrow> 'a list \<Rightarrow> 'a list" where
  "insert_by lt x [] = [x]"
| "insert_by lt x (y # ys) = (if lt y x then y # insert_by lt x ys else x # y # ys)"

definition sort_by :: "('a \<Rightarrow> 'a \<Rightarrow> bool) \<Rightarrow> 'a list \<Rightarrow> 'a list" where
  "sort_by lt v = foldr (insert_by lt) v []"

text \<open>
  Modelled from the spec: \<^verbatim>\<open>sort_limit\<close> of match.h, which is not part of the sources at
  hand. The spec (4.G): if \<open>K > 0\<close> and there are more than \<open>K\<close> matches, the top \<open>K\<close> are
  extracted in full order; otherwise the whole vector is sorted. The order is
  \<^verbatim>\<open>operator<\<close> of \<^verbatim>\<open>Match\<close>, the parameter \<open>lt\<close>.
\<close>

definition sort_limit :: "('a \<Rightarrow> 'a \<Rightarrow> bool) \<Rightarrow> 'a list \<Rightarrow> size_t \<Rightarrow> 'a list" where
  "sort_limit lt v limit =
     (if limit \<noteq> 0 \<and> unat limit < length v then take (unat limit) (sort_by lt v)
      else sort_by lt v)"

text \<open>
  \<^verbatim>\<open>std::push_heap\<close> and \<^verbatim>\<open>std::pop_heap\<close>: how a heap is laid out inside the vector is the
  standard library's business. The model keeps the vector in insertion order (so
  \<^verbatim>\<open>push_heap\<close> changes nothing) and \<^verbatim>\<open>pop_heap\<close> moves a largest element under \<open>lt\<close>
  to the back.
\<close>

fun heap_top :: "('a \<Rightarrow> 'a \<Rightarrow> bool) \<Rightarrow> 'a \<Rightarrow> 'a list \<Rightarrow> 'a" where
  "heap_top lt t [] = t"
| "heap_top lt t (x # xs) = heap_top lt (if lt t x then x else t) xs"

definition pop_heap :: "('a \<Rightarrow> 'a \<Rightarrow> bool) \<Rightarrow> 'a list \<Rightarrow> 'a list" where
  "pop_heap lt v =
     (case v of [] \<Rightarrow> [] | x # xs \<Rightarrow> (let t = heap_top lt x xs in remove1 t v @ [t]))"

subsection \<open>A worker thread\<close>

definition kBatchSizeBytes :: nat where
  "kBatchSizeBytes = 8192"

text \<open>The state guarded by \<^verbatim>\<open>items_mu\<close>.\<close>

record shared =
  items_iter :: pyiter
  end_of_python_iter :: bool
  have_python_ex :: bool

text \<open>
  Modelled from the spec: the \<^verbatim>\<open>Thread\<close> wrapper of par\_util.h, which is not part of the
  sources at hand. The spec (4.H): a worker thread catches any thrown error and stashes its
  message, which the driver reads with \<^verbatim>\<open>has_exception()\<close> and \<^verbatim>\<open>exception_msg()\<close> after
  the join. A worker is still running, has returned, or has thrown; with it go its vector
  \<^verbatim>\<open>thread_matches[i]\<close> and its local \<^verbatim>\<open>unmatched_objs\<close>.
\<close>

datatype thread_status = Running | Returned | Raised string

record 's worker =
  status :: thread_status
  matches :: "'s match list"
  unmatched_objs :: "pyobject list"

text \<open>
  The inner loop that collects a batch (\<^verbatim>\<open>while (batch_size_bytes < kBatchSizeBytes)\<close>),
  on the iterator. It ends because the batch is large enough, because \<^verbatim>\<open>PyIter_Next\<close>
  returned \<^verbatim>\<open>NULL\<close> (lines 213 to 217: whatever made it do so, \<open>end_of_python_iter\<close> is
  set), or because an object was not a string (lines 220 to 224).
\<close>

datatype batch_end = BatchFull | IterEnd | PythonEx

function collect_batch :: "pyiter \<Rightarrow> nat \<Rightarrow> Item list \<Rightarrow> pyiter \<times> Item list \<times> batch_end" where
  "collect_batch iter batch_size_bytes items =
     (if batch_size_bytes < kBatchSizeBytes then
        (case PyIter_Next iter of
           (None, iter') \<Rightarrow> (iter', items, IterEnd)
         | (Some item_obj, iter') \<Rightarrow>
             (case PyString_AsStringAndSize item_obj of
                None \<Rightarrow> (iter', items, PythonEx)
              | Some item_data \<Rightarrow>
                  collect_batch iter' (batch_size_bytes + length item_data)
                    (items @ [(item_data, item_obj)])))
      else (iter, items, BatchFull))"
  by pat_completeness auto
termination
  by (relation "measure (\<lambda>(iter, batch_size_bytes, items). length iter)")
     (auto dest: PyIter_Next_Some_length[OF sym])

declare collect_batch.simps [simp del]

definition item_str_of :: "substr_fn \<Rightarrow> string \<Rightarrow> string" where
  "item_str_of item_substr_fn s = (case item_substr_fn of None \<Rightarrow> s | Some f \<Rightarrow> snd (f s))"

text \<open>
  The body of \<^verbatim>\<open>for (auto& item : items)\<close> for one candidate, on the worker's
  \<open>(matches, unmatched_objs)\<close>. \<open>Inl msg\<close>: the matcher threw.
\<close>

definition process_item ::
  "('s match \<Rightarrow> 's match \<Rightarrow> bool) \<Rightarrow> 's matcher \<Rightarrow> substr_fn \<Rightarrow> size_t \<Rightarrow>
   's match list \<times> pyobject list \<Rightarrow> Item \<Rightarrow> string + ('s match list \<times> pyobject list)" where
  "process_item lt matcher item_substr_fn limit st it =
     (case st of (ms, un) \<Rightarrow>
        (case matcher (item_str_of item_substr_fn (fst it)) False of
           Inl msg \<Rightarrow> Inl msg
         | Inr None \<Rightarrow> Inr (ms, un @ [snd it])
         | Inr (Some (sc, ps)) \<Rightarrow>
             (let ms1 = ms @ [Match it sc] in
              if limit \<noteq> 0 then
                (if unat limit < length ms1 then
                   (let ms2 = pop_heap lt ms1
                    in Inr (butlast ms2, un @ [snd (item (last ms2))]))
                 else Inr (ms1, un))
              else Inr (ms1, un))))"

fun process_items ::
  "('s match \<Rightarrow> 's match \<Rightarrow> bool) \<Rightarrow> 's matcher \<Rightarrow> substr_fn \<Rightarrow> size_t \<Rightarrow>
   's match list \<times> pyobject list \<Rightarrow> Item list \<Rightarrow> string option \<times> 's match list \<times> pyobject list" where
  "process_items lt matcher item_substr_fn limit st [] = (None, st)"
| "process_items lt matcher item_substr_fn limit st (it # items) =
     (case process_item lt matcher item_substr_fn limit st it of
        Inl msg \<Rightarrow> (Some msg, st)
      | Inr st' \<Rightarrow> process_items lt matcher item_substr_fn limit st' items)"

text \<open>
  One turn of the worker's \<^verbatim>\<open>while (true)\<close>: the section under \<^verbatim>\<open>items_mu\<close> (drop the
  unmatched objects, look at the two flags, collect a batch), then the matching of the
  batch, which touches the worker's own data only. A worker that leaves has its
  \<open>unmatched_objs\<close> cleared by the deferred release. (Before its first turn the worker
  reserves room for \<open>limit + 1\<close> matches, lines 196 to 198; the reservation is taken to
  succeed.)
\<close>

definition worker_iteration ::
  "('s match \<Rightarrow> 's match \<Rightarrow> bool) \<Rightarrow> 's matcher \<Rightarrow> substr_fn \<Rightarrow> size_t \<Rightarrow>
   shared \<Rightarrow> 's worker \<Rightarrow> shared \<times> 's worker" where
  "worker_iteration lt matcher item_substr_fn limit sh w =
     (let w1 = w\<lparr>unmatched_objs := []\<rparr> in
      if end_of_python_iter sh \<or> have_python_ex sh then (sh, w1\<lparr>status := Returned\<rparr>)
      else
        (case collect_batch (items_iter sh) 0 [] of (iter', items, e) \<Rightarrow>
           if e = PythonEx then
             (sh\<lparr>items_iter := iter', have_python_ex := True\<rparr>, w1\<lparr>status := Returned\<rparr>)
           else
             (let sh' = sh\<lparr>items_iter := iter', end_of_python_iter := (e = IterEnd)\<rparr> in
              if items = [] then (sh', w1\<lparr>status := Returned\<rparr>)
              else
                (case process_items lt matcher item_substr_fn limit (matches w1, unmatched_objs w1) items of
                   (Some msg, ms, un) \<Rightarrow>
                     (sh', w1\<lparr>status := Raised msg, matches := ms, unmatched_objs := []\<rparr>)
                 | (None, ms, un) \<Rightarrow> (sh', w1\<lparr>matches := ms, unmatched_objs := un\<rparr>)))))"

subsection \<open>Workers running side by side\<close>

text \<open>
  Everything a worker shares with the others it touches under \<^verbatim>\<open>items_mu\<close>, once per turn
  of its loop, so an execution of the workers is a sequence of whole turns. A schedule
  names the worker that takes the next turn; a worker that has left its function takes no
  further turn.
\<close>

type_synonym 's threads = "shared \<times> 's worker list"

definition step ::
  "('s match \<Rightarrow> 's match \<Rightarrow> bool) \<Rightarrow> 's matcher \<Rightarrow> substr_fn \<Rightarrow> size_t \<Rightarrow>
   nat \<Rightarrow> 's threads \<Rightarrow> 's threads" where
  "step lt matcher item_substr_fn limit i st =
     (case st of (sh, ws) \<Rightarrow>
        if i < length ws \<and> status (ws ! i) = Running then
          (case worker_iteration lt matcher item_substr_fn limit sh (ws ! i) of
             (sh', w') \<Rightarrow> (sh', ws[i := w']))
        else (sh, ws))"

fun run_schedule ::
  "('s match \<Rightarrow> 's match \<Rightarrow> bool) \<Rightarrow> 's matcher \<Rightarrow> substr_fn \<Rightarrow> size_t \<Rightarrow>
   nat list \<Rightarrow> 's threads \<Rightarrow> 's threads" where
  "run_schedule lt matcher item_substr_fn limit [] st = st"
| "run_schedule lt matcher item_substr_fn limit (i # sched) st =
     run_schedule lt matcher item_substr_fn limit sched (step lt matcher item_substr_fn limit i st)"

lemma collect_batch_length:
  "collect_batch iter b items = (iter', items', e) \<Longrightarrow>
   length iter' + length items' \<le> length iter + length items"
proof (induction iter b items rule: collect_batch.induct)
  case (1 iter b items)
  obtain r rest where nx: "PyIter_Next iter = (r, rest)"
    by (cases "PyIter_Next iter") auto
  note len = PyIter_Next_length[OF nx]
  note eq = "1.prems"[unfolded collect_batch.simps[of iter b items]]
  show ?case
  proof (cases "b < kBatchSizeBytes")
    case False
    with eq show ?thesis by simp
  next
    case True
    note lt = this
    show ?thesis
    proof (cases r)
      case None
      with lt eq nx len show ?thesis by simp
    next
      case (Some item_obj)
      note r = this
      from PyIter_Next_Some_length[OF nx[unfolded r]] have less: "length rest < length iter" .
      show ?thesis
      proof (cases "PyString_AsStringAndSize item_obj")
        case None
        with lt r eq nx len show ?thesis by simp
      next
        case (Some item_data)
        with lt r eq nx
        have rec: "collect_batch rest (b + length item_data) (items @ [(item_data, item_obj)]) =
                     (iter', items', e)"
          by simp
        from "1.IH"[OF lt nx[symmetric] r Some rec] less show ?thesis by simp
      qed
    qed
  qed
qed

lemma worker_iteration_progress:
  assumes "worker_iteration lt matcher item_substr_fn limit sh w = (sh', w')"
    and "status w = Running"
  shows "length (items_iter sh') \<le> length (items_iter sh) \<and>
         (status w' = Running \<longrightarrow> length (items_iter sh') < length (items_iter sh))"
proof (cases "end_of_python_iter sh \<or> have_python_ex sh")
  case True
  with assms show ?thesis by (auto simp: worker_iteration_def)
next
  case False
  obtain iter' items e where cb: "collect_batch (items_iter sh) 0 [] = (iter', items, e)"
    by (cases "collect_batch (items_iter sh) 0 []") auto
  from collect_batch_length[OF cb]
  have len: "length iter' + length items \<le> length (items_iter sh)" by simp
  show ?thesis
  proof (cases "e = PythonEx \<or> items = []")
    case True
    with assms False cb len show ?thesis
      by (auto simp: worker_iteration_def Let_def split: if_splits)
  next
    case False
    then have ne: "items \<noteq> []" and npe: "e \<noteq> PythonEx" by auto
    from ne len have "length iter' < length (items_iter sh)"
      by (cases items) auto
    with assms \<open>\<not> (end_of_python_iter sh \<or> have_python_ex sh)\<close> cb ne npe show ?thesis
      by (auto simp: worker_iteration_def Let_def split: prod.splits option.splits)
  qed
qed

text \<open>
  The worker's \<^verbatim>\<open>while (true)\<close> run to its end: what \<^verbatim>\<open>threads[i].join()\<close> waits for.
  Each turn either leaves the loop or takes at least one object from the iterator.
\<close>

function run_worker ::
  "('s match \<Rightarrow> 's match \<Rightarrow> bool) \<Rightarrow> 's matcher \<Rightarrow> substr_fn \<Rightarrow> size_t \<Rightarrow>
   shared \<Rightarrow> 's worker \<Rightarrow> shared \<times> 's worker" where
  "run_worker lt matcher item_substr_fn limit sh w =
     (if status w = Running then
        (case worker_iteration lt matcher item_substr_fn limit sh w of
           (sh', w') \<Rightarrow> run_worker lt matcher item_substr_fn limit sh' w')
      else (sh, w))"
  by pat_completeness auto
termination
  apply (relation "measure (\<lambda>(lt, matcher, item_substr_fn, limit, sh, w).
          2 * length (items_iter sh) + (if status w = Running then 1 else 0))")
   apply simp
  subgoal for lt matcher item_substr_fn limit sh w x y
    using worker_iteration_progress[of lt matcher item_substr_fn limit sh w x y]
    by (cases "worker_iteration lt matcher item_substr_fn limit sh w") auto
  done

declare run_worker.simps [simp del]

definition join_thread ::
  "('s match \<Rightarrow> 's match \<Rightarrow> bool) \<Rightarrow> 's matcher \<Rightarrow> substr_fn \<Rightarrow> size_t \<Rightarrow>
   nat \<Rightarrow> 's threads \<Rightarrow> 's threads" where
  "join_thread lt matcher item_substr_fn limit i st =
     (case st of (sh, ws) \<Rightarrow>
        if i < length ws then
          (case run_worker lt matcher item_substr_fn limit sh (ws ! i) of
             (sh', w') \<Rightarrow> (sh', ws[i := w']))
        else (sh, ws))"

subsection \<open>The driver\<close>

text \<open>
  The loop over \<^verbatim>\<open>threads[i].join()\<close>: the threads still to visit, the state of the
  threads, \<^verbatim>\<open>nr_matches\<close>, and the indices joined so far (a record of the calls to
  \<^verbatim>\<open>join\<close>, kept for the proofs). \<open>Inl msg\<close>: \<^verbatim>\<open>throw Error(threads[i].exception_msg())\<close>.
\<close>

fun join_threads ::
  "('s match \<Rightarrow> 's match \<Rightarrow> bool) \<Rightarrow> 's matcher \<Rightarrow> substr_fn \<Rightarrow> size_t \<Rightarrow>
   nat list \<Rightarrow> 's threads \<Rightarrow> nat \<Rightarrow> nat list \<Rightarrow> 's threads \<times> nat list \<times> (string + nat)" where
  "join_threads lt matcher item_substr_fn limit [] st nr_matches joined =
     (st, joined, Inr nr_matches)"
| "join_threads lt matcher item_substr_fn limit (i # rest) st nr_matches joined =
     (let st' = join_thread lt matcher item_substr_fn limit i st in
      case status (snd st' ! i) of
        Raised msg \<Rightarrow> (st', joined @ [i], Inl msg)
      | _ \<Rightarrow>
          join_threads lt matcher item_substr_fn limit rest st'
            (nr_matches + length (matches (snd st' ! i))) (joined @ [i]))"

text \<open>
  Modelled from the spec: the destructor of \<^verbatim>\<open>Thread\<close> (par\_util.h, which is not part of
  the sources at hand). The vector \<^verbatim>\<open>threads\<close> is a local of the \<^verbatim>\<open>try\<close> block (line 177),
  so the \<^verbatim>\<open>throw\<close> of line 263 destroys it, element by element, before the handler of
  line 347 runs. The spec (7, WorkerError; 4.F, Completion) has every worker joined before
  the first error is re-raised as the error of the request: a \<^verbatim>\<open>Thread\<close> that is destroyed
  without having been joined waits for its worker, as \<^verbatim>\<open>join\<close> does, and one that has
  been joined is left alone. The model visits the workers in index order; \<open>joined\<close> goes
  on recording who has been waited for.
\<close>

fun destroy_threads ::
  "('s match \<Rightarrow> 's match \<Rightarrow> bool) \<Rightarrow> 's matcher \<Rightarrow> substr_fn \<Rightarrow> size_t \<Rightarrow>
   nat list \<Rightarrow> 's threads \<Rightarrow> nat list \<Rightarrow> 's threads \<times> nat list" where
  "destroy_threads lt matcher item_substr_fn limit [] st joined = (st, joined)"
| "destroy_threads lt matcher item_substr_fn limit (i # rest) st joined =
     (if i \<in> set joined then destroy_threads lt matcher item_substr_fn limit rest st joined
      else
        destroy_threads lt matcher item_substr_fn limit rest
          (join_thread lt matcher item_substr_fn limit i st) (joined @ [i]))"

text \<open>
  The join loop together with what a \<^verbatim>\<open>throw\<close> out of it sets off before it is caught.
  When the loop ends without a \<^verbatim>\<open>throw\<close>, every worker has been joined by it, and the
  destruction of \<^verbatim>\<open>threads\<close> on the way out of the block has nobody left to wait for.
\<close>

definition run_threads ::
  "('s match \<Rightarrow> 's match \<Rightarrow> bool) \<Rightarrow> 's matcher \<Rightarrow> substr_fn \<Rightarrow> size_t \<Rightarrow>
   nat \<Rightarrow> 's threads \<Rightarrow> 's threads \<times> nat list \<times> (string + nat)" where
  "run_threads lt matcher item_substr_fn limit nr_threads st =
     (case join_threads lt matcher item_substr_fn limit [0..<nr_threads] st 0 [] of
        (st', joined, Inl msg) \<Rightarrow>
          (case destroy_threads lt matcher item_substr_fn limit [0..<nr_threads] st' joined of
             (st'', joined') \<Rightarrow> (st'', joined', Inl msg))
      | (st', joined, Inr nr_matches) \<Rightarrow> (st', joined, Inr nr_matches))"

text \<open>
  Lines 162 to 164: \<^verbatim>\<open>limit_int\<close> and \<^verbatim>\<open>max_threads_int\<close> are C \<^verbatim>\<open>int\<close>s, read as signed
  with \<open>sint\<close>; a value that is not negative is converted, a negative one gives 0.
\<close>

definition limit_of :: "c_int \<Rightarrow> size_t" where
  "limit_of limit_int' = (if 0 \<le> sint limit_int' then scast limit_int' else 0)"

definition max_threads_of :: "c_int \<Rightarrow> c_uint" where
  "max_threads_of max_threads_int' = (if 0 \<le> sint max_threads_int' then max_threads_int' else 0)"

text \<open>
  The state in which the workers start: the iterator untouched, both flags clear, every
  worker running with no matches.
\<close>

definition start_threads :: "nat \<Rightarrow> pyiter \<Rightarrow> 's threads" where
  "start_threads nr_threads iter =
     (\<lparr>items_iter = iter, end_of_python_iter = False, have_python_ex = False\<rparr>,
      replicate nr_threads \<lparr>status = Running, matches = [], unmatched_objs = []\<rparr>)"

text \<open>
  Modelled from the spec: the message of \<^verbatim>\<open>Error\<close> (str\_util.h, not part of the sources at
  hand) is assembled from the fragments it is constructed with (4.H); here the three
  arguments of the \<^verbatim>\<open>throw\<close> in the highlight pass, concatenated.
\<close>

definition rematch_error :: "string \<Rightarrow> string" where
  "rematch_error item_str =
     ''failed to re-match known match '' @ [CHR 0x27] @ item_str @ [CHR 0x27] @
     '' during highlight pass''"

text \<open>
  The highlight pass over the sorted matches: the matcher is asked again, with a set for
  the positions, which are moved by the offset of the substring view and handed to the
  regex emitter. (The score the second call writes into the match is read by nobody.)
\<close>

fun highlight_pass ::
  "'s matcher \<Rightarrow> substr_fn \<Rightarrow> (string \<Rightarrow> string \<Rightarrow> nat set \<Rightarrow> string list \<Rightarrow> string + string list) \<Rightarrow>
   string \<Rightarrow> 's match list \<Rightarrow> string list \<Rightarrow> string + string list" where
  "highlight_pass matcher item_substr_fn regexes_fn highlight_mode [] match_regexes =
     Inr match_regexes"
| "highlight_pass matcher item_substr_fn regexes_fn highlight_mode (m # ms) match_regexes =
     (let item_str = item_str_of item_substr_fn (fst (item m)) in
      case matcher item_str True of
        Inl msg \<Rightarrow> Inl msg
      | Inr None \<Rightarrow> Inl (rematch_error item_str)
      | Inr (Some (sc, match_positions)) \<Rightarrow>
          (let new_match_positions =
                 (case item_substr_fn of
                    None \<Rightarrow> match_positions
                  | Some f \<Rightarrow> (\<lambda>pos. fst (f (fst (item m))) + pos) ` match_positions)
           in case regexes_fn highlight_mode (fst (item m)) new_match_positions match_regexes of
                Inl msg \<Rightarrow> Inl msg
              | Inr match_regexes' \<Rightarrow>
                  highlight_pass matcher item_substr_fn regexes_fn highlight_mode ms match_regexes'))"

text \<open>
  From the joined threads to the output tuple (lines 267 to 346). The allocations of the
  output (\<^verbatim>\<open>PyTuple_New\<close>, \<^verbatim>\<open>PyList_New\<close>, \<^verbatim>\<open>PyList_Append\<close>) are taken to succeed.
\<close>

definition finish ::
  "'s env \<Rightarrow> 's matcher \<Rightarrow> substr_fn \<Rightarrow> size_t \<Rightarrow> string \<Rightarrow> 's threads \<Rightarrow> py_return" where
  "finish env matcher item_substr_fn limit highlight_mode st =
     (if have_python_ex (fst st) then HostError
      else
        (let all_matches = sort_limit (match_less env) (concat (map matches (snd st))) limit in
         case (if highlight_mode \<noteq> [] \<and> highlight_mode \<noteq> ''none''
               then highlight_pass matcher item_substr_fn (get_highlight_regexes env)
                      highlight_mode all_matches []
               else Inr []) of
           Inl msg \<Rightarrow> RuntimeError msg
         | Inr match_regexes \<Rightarrow> Result (map (\<lambda>m. snd (item m)) all_matches) match_regexes))"

text \<open>
  Lines 140 to 165: the query, split at the inverting delimiter and joined in reverse when
  there is one; the matcher built from it and the options; the number of workers.
\<close>

definition inverted_query :: "'s env \<Rightarrow> args \<Rightarrow> string" where
  "inverted_query env a =
     (let query_inverting_delimiter = query_inverting_delimiter_data a in
      if query_inverting_delimiter \<noteq> [] then
        str_join env (rev (str_split env (query_data a) (hd query_inverting_delimiter))) []
      else query_data a)"

definition request_matcher :: "'s env \<Rightarrow> args \<Rightarrow> string + 's matcher" where
  "request_matcher env a =
     new_Matcher env (inverted_query env a)
       (MatcherOpts (cur_file_data a) (is_path a \<noteq> 0) (match_crfile a \<noteq> 0)) (unicode a \<noteq> 0)"

definition nr_threads_of :: "'s env \<Rightarrow> args \<Rightarrow> nat" where
  "nr_threads_of env a =
     unat (get_nr_threads (hardware_concurrency env) (max_threads_of (max_threads_int a)))"

text \<open>
  \<^verbatim>\<open>cpsm_ctrlp_match\<close>, from the \<^verbatim>\<open>try\<close> on. The schedule \<open>sched\<close> is the order in which
  the workers take their turns before the driver starts joining; a join lets the joined
  worker finish. A thrown \<^verbatim>\<open>Error\<close> ends in the \<^verbatim>\<open>catch\<close> as a \<open>RuntimeError\<close>, after the
  locals of the \<^verbatim>\<open>try\<close> block have been destroyed.
\<close>

definition ctrlp_match :: "'s env \<Rightarrow> nat list \<Rightarrow> args \<Rightarrow> py_return" where
  "ctrlp_match env sched a =
     (if query_inverting_delimiter_data a \<noteq> [] \<and> 1 < length (query_inverting_delimiter_data a)
      then RuntimeError ''query inverting delimiter must be a single character''
      else
        (case request_matcher env a of
           Inl msg \<Rightarrow> RuntimeError msg
         | Inr matcher \<Rightarrow>
             (case match_mode_item_substr_fn env (mmode_data a) of
                Inl msg \<Rightarrow> RuntimeError msg
              | Inr item_substr_fn \<Rightarrow>
                  (let limit = limit_of (limit_int a);
                       nr_threads = nr_threads_of env a
                   in case items_obj a of
                        None \<Rightarrow> HostError
                      | Some iter \<Rightarrow>
                          (case run_threads (match_less env) matcher item_substr_fn limit
                                  nr_threads
                                  (run_schedule (match_less env) matcher item_substr_fn limit sched
                                     (start_threads nr_threads iter)) of
                             (st, joined, Inl msg) \<Rightarrow> RuntimeError msg
                           | (st, joined, Inr nr_matches) \<Rightarrow>
                               finish env matcher item_substr_fn limit (highlight_mode_data a) st)))))"

subsection \<open>A concrete request\<close>

text \<open>
  A small instance of the collaborators, for evaluating the driver: the matcher accepts
  the candidates that start with the query and scores them by their length; in the first
  pass it throws on the candidate \<open>''!''\<close>, and it loses the candidate \<open>''ab?''\<close> when
  positions are asked for. Two hardware threads.
\<close>

definition demo_matcher :: "string \<Rightarrow> nat matcher" where
  "demo_matcher q s want_positions =
     (if s = ''!'' \<and> \<not> want_positions then Inl ''boom''
      else if take (length q) s = q then
        (if want_positions \<and> s = ''ab?'' then Inr None else Inr (Some (length s, {})))
      else Inr None)"

definition demo_env :: "nat env" where
  "demo_env =
     \<lparr>hardware_concurrency = 2,
      str_split = (\<lambda>s c. [s]),
      str_join = (\<lambda>xs sep. concat xs),
      new_Matcher = (\<lambda>q opts u. Inr (demo_matcher q)),
      match_mode_item_substr_fn = (\<lambda>m. Inr None),
      match_less = (\<lambda>a b. score a < score b),
      get_highlight_regexes = (\<lambda>mode it ps out. Inr (out @ [it]))\<rparr>"

definition demo_args :: args where
  "demo_args =
     \<lparr>items_obj = Some (map Yield [PyString ''abc'', PyString ''xy'', PyString ''ab'', PyString ''abcd'']),
      query_data = ''ab'', limit_int = 2, mmode_data = [], is_path = 0,
      cur_file_data = [], highlight_mode_data = [], match_crfile = 0, max_threads_int = 0,
      query_inverting_delimiter_data = [], unicode = 0\<rparr>"


definition rematch_args :: args where
  "rematch_args =
     demo_args\<lparr>items_obj := Some (map Yield [PyString ''ab?'', PyString ''ab'']),
               highlight_mode_data := ''basic''\<rparr>"

text \<open>
  Two more streams: one whose iterator raises after it has handed out \<open>''ab''\<close>, and one
  that holds an object that is not a string at the same place.
\<close>

definition raising_iter_args :: args where
  "raising_iter_args =
     demo_args\<lparr>items_obj := Some [Yield (PyString ''ab''), Raise, Yield (PyString ''abc'')]\<rparr>"

definition non_string_args :: args where
  "non_string_args =
     demo_args\<lparr>items_obj := Some [Yield (PyString ''ab''), Yield PyOther, Yield (PyString ''abc'')]\<rparr>"

definition fresh_shared :: "pyiter \<Rightarrow> shared" where
  "fresh_shared iter = \<lparr>items_iter = iter, end_of_python_iter = False, have_python_ex = False\<rparr>"

definition fresh_worker :: "nat worker" where
  "fresh_worker = \<lparr>status = Running, matches = [], unmatched_objs = []\<rparr>"

subsection \<open>Notions used in the statements\<close>

text \<open>
  A candidate matches when it is a string and the matcher accepts its substring view.
  \<open>handed_out\<close> lists the objects a stream hands out before \<^verbatim>\<open>PyIter_Next\<close> returns
  \<^verbatim>\<open>NULL\<close> on it for the first time (all of them, when the iterator does not raise), and
  \<open>total_matches\<close> counts the matching candidates among them. \<open>batch_bytes\<close> is the
  cumulative byte size of a batch.
\<close>

fun handed_out :: "pyiter \<Rightarrow> pyobject list" where
  "handed_out [] = []"
| "handed_out (Yield obj # rest) = obj # handed_out rest"
| "handed_out (Raise # rest) = []"

definition is_match :: "'s matcher \<Rightarrow> substr_fn \<Rightarrow> pyobject \<Rightarrow> bool" where
  "is_match matcher item_substr_fn obj =
     (case PyString_AsStringAndSize obj of
        None \<Rightarrow> False
      | Some s \<Rightarrow>
          (case matcher (item_str_of item_substr_fn s) False of
             Inr (Some r) \<Rightarrow> True
           | _ \<Rightarrow> False))"

definition total_matches :: "'s matcher \<Rightarrow> substr_fn \<Rightarrow> pyiter \<Rightarrow> nat" where
  "total_matches matcher item_substr_fn iter =
     length (filter (is_match matcher item_substr_fn) (handed_out iter))"

definition batch_bytes :: "Item list \<Rightarrow> nat" where
  "batch_bytes items = sum_list (map (\<lambda>it. length (fst it)) items)"

text \<open>
  The invariant of the threads' state that the proofs carry through every turn of a
  worker. \<open>kept\<close> is the number of matches the workers hold, \<open>pending\<close> the number of
  matches still to come (none once \<open>end_of_python_iter\<close> is set, as nobody asks the
  iterator again). As long as no worker has thrown and the host has raised nothing, either
  every match seen so far is still held, or the held ones are at least \<open>limit\<close> many.
\<close>

definition pending :: "'s matcher \<Rightarrow> substr_fn \<Rightarrow> shared \<Rightarrow> nat" where
  "pending matcher item_substr_fn sh =
     (if end_of_python_iter sh then 0 else total_matches matcher item_substr_fn (items_iter sh))"

definition kept :: "'s worker list \<Rightarrow> nat" where
  "kept ws = sum_list (map (\<lambda>w. length (matches w)) ws)"

definition failed :: "'s threads \<Rightarrow> bool" where
  "failed st =
     (have_python_ex (fst st) \<or> list_ex (\<lambda>w. case status w of Raised msg \<Rightarrow> True | _ \<Rightarrow> False) (snd st))"

definition heap_ok :: "size_t \<Rightarrow> 's worker list \<Rightarrow> bool" where
  "heap_ok limit ws = (limit = 0 \<or> list_all (\<lambda>w. length (matches w) \<le> unat limit) ws)"

definition flags_ok :: "'s threads \<Rightarrow> bool" where
  "flags_ok st =
     (if list_ex (\<lambda>w. status w = Returned) (snd st)
      then end_of_python_iter (fst st) \<or> have_python_ex (fst st) else True)"

definition count_ok :: "'s matcher \<Rightarrow> substr_fn \<Rightarrow> size_t \<Rightarrow> nat \<Rightarrow> 's threads \<Rightarrow> bool" where
  "count_ok matcher item_substr_fn limit tot st =
     (failed st \<or>
      kept (snd st) + pending matcher item_substr_fn (fst st) = tot \<or>
      (limit \<noteq> 0 \<and> unat limit \<le> kept (snd st) \<and>
       kept (snd st) + pending matcher item_substr_fn (fst st) \<le> tot))"

definition driver_inv :: "'s matcher \<Rightarrow> substr_fn \<Rightarrow> size_t \<Rightarrow> nat \<Rightarrow> 's threads \<Rightarrow> bool" where
  "driver_inv matcher item_substr_fn limit tot st =
     (heap_ok limit (snd st) \<and> flags_ok st \<and> count_ok matcher item_substr_fn limit tot st)"

text \<open>
  \<open>accepted\<close>: the matcher takes the item in the first pass. \<open>grow limit n c\<close>: the size
  of a vector of \<open>n\<close> matches after \<open>c\<close> more, cut at the limit if there is one.
\<close>

definition accepted :: "'s matcher \<Rightarrow> substr_fn \<Rightarrow> Item \<Rightarrow> bool" where
  "accepted matcher item_substr_fn it =
     (case matcher (item_str_of item_substr_fn (fst it)) False of Inr (Some r) \<Rightarrow> True | _ \<Rightarrow> False)"

definition grow :: "size_t \<Rightarrow> nat \<Rightarrow> nat \<Rightarrow> nat" where
  "grow limit n c = (if limit = 0 then n + c else min (unat limit) (n + c))"

section \<open>Properties\<close>

subsection \<open>Path decomposition\<close>

lemma find_first_of_None: "find_first_of path c = None \<Longrightarrow> c \<notin> set path"
  by (induction path) (auto split: if_splits option.splits)

lemma find_first_of_Some:
  "find_first_of path c = Some pos \<Longrightarrow> path ! pos = c \<and> c \<notin> set (take pos path)"
  by (induction path arbitrary: pos) (auto split: if_splits option.splits)

lemma path_components_loop_concat:
  "concat (path_components_loop pl path parts) = concat parts @ path"
proof (induction pl path parts rule: path_components_loop.induct)
  case (1 pl path parts)
  show ?case
  proof (cases "find_first_of path (path_separator pl)")
    case None
    then show ?thesis by (simp add: path_components_loop.simps[of pl path parts])
  next
    case (Some pos)
    from "1.IH"[OF Some refl] Some show ?thesis
      by (simp add: path_components_loop.simps[of pl path parts])
  qed
qed

lemma path_components_loop_all:
  assumes "\<forall>c \<in> set parts. c \<noteq> [] \<and> path_separator pl \<notin> set (butlast c)"
  shows "\<forall>c \<in> set (path_components_loop pl path parts).
           c \<noteq> [] \<and> path_separator pl \<notin> set (butlast c)"
  using assms
proof (induction pl path parts rule: path_components_loop.induct)
  case (1 pl path parts)
  show ?case
  proof (cases "find_first_of path (path_separator pl)")
    case None
    from find_first_of_None[OF None] have "path_separator pl \<notin> set (butlast path)"
      by (auto dest: in_set_butlastD)
    with None "1.prems" show ?thesis
      by (simp add: path_components_loop.simps[of pl path parts])
  next
    case (Some pos)
    from find_first_of_less[OF Some] have ne: "take (pos + 1) path \<noteq> []" by auto
    from find_first_of_less[OF Some] find_first_of_Some[OF Some]
    have "path_separator pl \<notin> set (butlast (take (pos + 1) path))"
      by (simp add: butlast_take)
    with ne "1.prems"
    have "\<forall>c \<in> set (parts @ [take (pos + 1) path]). c \<noteq> [] \<and> path_separator pl \<notin> set (butlast c)"
      by simp
    from "1.IH"[OF Some refl this] Some show ?thesis
      by (simp add: path_components_loop.simps[of pl path parts])
  qed
qed

lemma path_components_loop_butlast:
  assumes "\<forall>c \<in> set parts. c \<noteq> [] \<and> last c = path_separator pl"
  shows "\<forall>c \<in> set (butlast (path_components_loop pl path parts)).
           c \<noteq> [] \<and> last c = path_separator pl"
  using assms
proof (induction pl path parts rule: path_components_loop.induct)
  case (1 pl path parts)
  show ?case
  proof (cases "find_first_of path (path_separator pl)")
    case None
    with "1.prems" show ?thesis
      by (auto simp: path_components_loop.simps[of pl path parts] dest: in_set_butlastD)
  next
    case (Some pos)
    from find_first_of_less[OF Some] have ne: "take (pos + 1) path \<noteq> []" by auto
    from find_first_of_less[OF Some] find_first_of_Some[OF Some]
    have "last (take (pos + 1) path) = path_separator pl"
      by (simp add: take_Suc_conv_app_nth)
    with ne "1.prems"
    have "\<forall>c \<in> set (parts @ [take (pos + 1) path]). c \<noteq> [] \<and> last c = path_separator pl"
      by simp
    from "1.IH"[OF Some refl this] Some show ?thesis
      by (simp add: path_components_loop.simps[of pl path parts])
  qed
qed

text \<open>
  C4. Concatenating the components of a path, in order, gives the path back; every
  component but the last is not empty and ends with the path separator; the empty path
  has no components.
\<close>

theorem path_components_of_concat:
  "concat (path_components_of pl p) = p \<and>
   (\<forall>i. Suc i < length (path_components_of pl p) \<longrightarrow>
      path_components_of pl p ! i \<noteq> [] \<and>
      last (path_components_of pl p ! i) = path_separator pl) \<and>
   path_components_of pl [] = []"
proof -
  have a: "concat (path_components_of pl p) = p"
    by (simp add: path_components_of_def path_components_loop_concat)
  have bl: "\<forall>c \<in> set (butlast (path_components_of pl p)). c \<noteq> [] \<and> last c = path_separator pl"
    unfolding path_components_of_def by (rule path_components_loop_butlast) simp
  have b: "\<forall>i. Suc i < length (path_components_of pl p) \<longrightarrow>
      path_components_of pl p ! i \<noteq> [] \<and>
      last (path_components_of pl p ! i) = path_separator pl"
  proof (intro allI impI)
    fix i assume "Suc i < length (path_components_of pl p)"
    then have i: "i < length (butlast (path_components_of pl p))" by simp
    then have "butlast (path_components_of pl p) ! i \<in> set (butlast (path_components_of pl p))"
      by (rule nth_mem)
    moreover have "butlast (path_components_of pl p) ! i = path_components_of pl p ! i"
      using i by (simp add: nth_butlast)
    ultimately show "path_components_of pl p ! i \<noteq> [] \<and>
      last (path_components_of pl p ! i) = path_separator pl"
      using bl by auto
  qed
  have c: "path_components_of pl [] = []"
    by (simp add: path_components_of_def path_components_loop.simps[of pl "[]" "[]"])
  from a b c show ?thesis by blast
qed

theorem path_components_of_concat_witness:
  "Suc 0 < length (path_components_of Posix ''src/foo/bar.cc'') \<and>
   path_components_of Posix ''src/foo/bar.cc'' ! 0 = ''src/'' \<and>
   last (path_components_of Posix ''src/foo/bar.cc'' ! 0) = CHR ''/'' \<and>
   concat (path_components_of Posix ''src/foo/bar.cc'') = ''src/foo/bar.cc''"
proof -
  have ev: "path_components_of Posix ''src/foo/bar.cc'' = [''src/'', ''foo/'', ''bar.cc'']"
    by (simp add: path_components_of_def path_components_loop.simps path_separator_def)
  from path_components_of_concat[of Posix "''src/foo/bar.cc''"] ev
  show ?thesis by (simp add: path_separator_def)
qed

text \<open>
  C10. Every component of a path is not empty, and the path separator stands nowhere in
  it but, at most, as its last character.
\<close>

theorem path_components_of_shape:
  "\<forall>c \<in> set (path_components_of pl p).
     c \<noteq> [] \<and> (\<forall>i < length c. c ! i = path_separator pl \<longrightarrow> i = length c - 1)"
proof
  fix c assume c: "c \<in> set (path_components_of pl p)"
  have "\<forall>c \<in> set (path_components_of pl p). c \<noteq> [] \<and> path_separator pl \<notin> set (butlast c)"
    unfolding path_components_of_def by (rule path_components_loop_all) simp
  with c have ne: "c \<noteq> []" and ns: "path_separator pl \<notin> set (butlast c)" by auto
  have "i = length c - 1" if "i < length c" and "c ! i = path_separator pl" for i
  proof (rule ccontr)
    assume "i \<noteq> length c - 1"
    with that have "i < length (butlast c)" by simp
    then have "butlast c ! i \<in> set (butlast c)" by (rule nth_mem)
    moreover have "butlast c ! i = c ! i" using \<open>i < length (butlast c)\<close> by (simp add: nth_butlast)
    ultimately show False using ns that by simp
  qed
  with ne show "c \<noteq> [] \<and> (\<forall>i < length c. c ! i = path_separator pl \<longrightarrow> i = length c - 1)"
    by blast
qed

theorem path_components_of_shape_witness:
  "''usr/'' \<in> set (path_components_of Posix ''/usr//lib'') \<and>
   ''usr/'' \<noteq> [] \<and> (3::nat) < length ''usr/'' \<and> ''usr/'' ! 3 = path_separator Posix \<and>
   (3::nat) = length ''usr/'' - 1"
proof -
  have ev: "path_components_of Posix ''/usr//lib'' = [''/'', ''usr/'', ''/'', ''lib'']"
    by (simp add: path_components_of_def path_components_loop.simps path_separator_def)
  from path_components_of_shape[of Posix "''/usr//lib''"] ev
  show ?thesis by (simp add: path_separator_def)
qed

subsection \<open>Common prefix and path distance\<close>

lemma common_prefix_loop_add: "common_prefix_loop x y n = n + common_prefix_loop x y 0"
proof (induction x arbitrary: y n)
  case Nil
  then show ?case by simp
next
  case (Cons a x)
  show ?case
  proof (cases y)
    case Nil
    then show ?thesis by simp
  next
    case (Cons b y')
    with Cons.IH[of y' "Suc n"] Cons.IH[of y' "Suc 0"] show ?thesis by simp
  qed
qed

lemma common_prefix_Nil: "common_prefix [] y = 0" "common_prefix x [] = 0"
  by (cases x; simp add: common_prefix_def)+

lemma common_prefix_Cons:
  "common_prefix (a # x) (b # y) = (if a \<noteq> b then 0 else Suc (common_prefix x y))"
  using common_prefix_loop_add[of x y "Suc 0"] by (simp add: common_prefix_def)

lemma common_prefix_le: "common_prefix x y \<le> min (length x) (length y)"
proof (induction x arbitrary: y)
  case Nil
  then show ?case by (simp add: common_prefix_Nil)
next
  case (Cons a x)
  then show ?case by (cases y) (auto simp: common_prefix_Cons common_prefix_Nil le_SucI)
qed

lemma common_prefix_sym: "common_prefix x y = common_prefix y x"
proof (induction x arbitrary: y)
  case Nil
  then show ?case by (simp add: common_prefix_Nil)
next
  case (Cons a x)
  then show ?case by (cases y) (auto simp: common_prefix_Cons common_prefix_Nil)
qed

lemma common_prefix_take: "take (common_prefix x y) x = take (common_prefix x y) y"
proof (induction x arbitrary: y)
  case Nil
  then show ?case by (simp add: common_prefix_Nil)
next
  case (Cons a x)
  then show ?case by (cases y) (auto simp: common_prefix_Cons common_prefix_Nil)
qed

lemma common_prefix_stop:
  "common_prefix x y < length x \<Longrightarrow> common_prefix x y < length y \<Longrightarrow>
   x ! common_prefix x y \<noteq> y ! common_prefix x y"
proof (induction x arbitrary: y)
  case Nil
  then show ?case by simp
next
  case (Cons a x)
  then show ?case by (cases y) (auto simp: common_prefix_Cons common_prefix_Nil)
qed

lemma unat_path_distance_between:
  assumes "length x + length y < 2 ^ 64"
  shows "unat (path_distance_between x y) = length x + length y - 2 * common_prefix x y"
proof -
  have le: "2 * common_prefix x y \<le> length x + length y"
    using common_prefix_le[of x y] by simp
  have "path_distance_between x y = of_nat (length x + length y - 2 * common_prefix x y)"
    unfolding path_distance_between_def using le by (simp add: of_nat_diff)
  moreover have "length x + length y - 2 * common_prefix x y < 2 ^ 64"
    using assms by simp
  ultimately show ?thesis by (simp add: unat_of_nat)
qed

text \<open>
  C3. For two decomposed paths (of less than \<open>2^64\<close> components together, as any two
  vectors are), the distance computed in \<^verbatim>\<open>std::size_t\<close> is the integer
  \<open>|x| + |y| - 2 * common_prefix x y\<close>: the subtraction does not wrap around.
  \<open>common_prefix\<close> is the number of equal leading components: the two paths agree on that
  many components and differ on the next one, if both have one. The distance is not
  negative and it is symmetric. Nothing of this needs the paths to share a root.
\<close>

theorem path_distance_law:
  assumes "length x + length y < 2 ^ 64"
  shows "uint (path_distance_between x y) =
           int (length x) + int (length y) - 2 * int (common_prefix x y) \<and>
         take (common_prefix x y) x = take (common_prefix x y) y \<and>
         (common_prefix x y < length x \<and> common_prefix x y < length y \<longrightarrow>
            x ! common_prefix x y \<noteq> y ! common_prefix x y) \<and>
         0 \<le> int (length x) + int (length y) - 2 * int (common_prefix x y) \<and>
         path_distance_between x y = path_distance_between y x"
proof -
  have le: "2 * common_prefix x y \<le> length x + length y"
    using common_prefix_le[of x y] by simp
  have "int (unat (path_distance_between x y)) =
          int (length x + length y - 2 * common_prefix x y)"
    using unat_path_distance_between[OF assms] by simp
  then have a: "uint (path_distance_between x y) =
           int (length x) + int (length y) - 2 * int (common_prefix x y)"
    using le by (simp add: of_nat_diff)
  have b: "0 \<le> int (length x) + int (length y) - 2 * int (common_prefix x y)"
    using le by linarith
  have c: "path_distance_between x y = path_distance_between y x"
    by (simp add: path_distance_between_def common_prefix_sym[of x y])
  from a b c common_prefix_take[of x y] common_prefix_stop[of x y] show ?thesis
    by blast
qed

theorem path_distance_law_witness:
  "length [''src/'', ''foo/'', ''bar.cc''] + length [''src/'', ''bar/'', ''foo.cc''] < (2::nat) ^ 64 \<and>
   common_prefix [''src/'', ''foo/'', ''bar.cc''] [''src/'', ''bar/'', ''foo.cc''] = 1 \<and>
   uint (path_distance_between [''src/'', ''foo/'', ''bar.cc''] [''src/'', ''bar/'', ''foo.cc'']) = 4 \<and>
   path_distance_between [''src/'', ''foo/'', ''bar.cc''] [''src/'', ''bar/'', ''foo.cc''] =
   path_distance_between [''src/'', ''bar/'', ''foo.cc''] [''src/'', ''foo/'', ''bar.cc'']"
proof -
  have b: "length [''src/'', ''foo/'', ''bar.cc''] + length [''src/'', ''bar/'', ''foo.cc''] < (2::nat) ^ 64"
    by simp
  have cp: "common_prefix [''src/'', ''foo/'', ''bar.cc''] [''src/'', ''bar/'', ''foo.cc''] = 1"
    by (simp add: common_prefix_def)
  note law = path_distance_law[OF b]
  from law[THEN conjunct1] cp
  have d: "uint (path_distance_between [''src/'', ''foo/'', ''bar.cc''] [''src/'', ''bar/'', ''foo.cc'']) = 4"
    by simp
  from law
  have s: "path_distance_between [''src/'', ''foo/'', ''bar.cc''] [''src/'', ''bar/'', ''foo.cc''] =
           path_distance_between [''src/'', ''bar/'', ''foo.cc''] [''src/'', ''foo/'', ''bar.cc'']"
    by blast
  from b cp d s show ?thesis by blast
qed

subsection \<open>The number of worker threads\<close>

lemma unat_ucast_up: "unat (ucast w :: size_t) = unat w" for w :: c_uint
proof -
  have "unat w < 2 ^ 32" using unsigned_less[of w, where 'a=nat] by simp
  then have "unat w < 2 ^ 64" by simp
  then show ?thesis by (simp add: unsigned_ucast_eq take_bit_nat_eq_self)
qed

lemma ucast_up_down: "(ucast (ucast w :: size_t) :: c_uint) = w" for w :: c_uint
  by (simp add: ucast_up_ucast_id is_up)

lemma ucast_up_eq_0: "(ucast w :: size_t) = 0 \<longleftrightarrow> w = 0" for w :: c_uint
  using unat_ucast_up[of w] by (metis unat_eq_0)

lemma unat_get_nr_threads:
  "unat (get_nr_threads h m) = max 1 (if m \<noteq> 0 then min (unat h) (unat m) else unat h)"
proof -
  have lt: "((ucast a :: size_t) > ucast b) = (unat a > unat b)" for a b :: c_uint
    by (simp add: word_less_nat_alt unat_ucast_up)
  have nz: "w \<noteq> 0 \<Longrightarrow> 1 \<le> unat w" for w :: c_uint
    using unat_eq_0[of w] by linarith
  show ?thesis
  proof (cases "h = 0")
    case True
    then show ?thesis
      unfolding get_nr_threads_def Let_def
      by (simp add: word_less_1 ucast_up_eq_0)
  next
    case False
    then show ?thesis
      unfolding get_nr_threads_def Let_def
      using nz[of h] nz[of m]
      by (auto simp: ucast_up_eq_0 lt ucast_up_down max_def min_def)
  qed
qed

lemma nr_threads_of_pos: "0 < nr_threads_of env a"
  by (simp add: nr_threads_of_def unat_get_nr_threads)



subsection \<open>Evaluating the concrete request\<close>

lemma upt_0_2: "[0..<2] = [0, Suc 0]"
  by (simp add: upt_rec numeral_2_eq_2)

lemma replicate_2: "replicate 2 x = [x, x]"
  by (simp add: numeral_2_eq_2)

lemma run_threads_case:
  "(case run_threads lt matcher item_substr_fn limit n st of
      (st', joined, r) \<Rightarrow> (case r of Inl msg \<Rightarrow> f msg | Inr nr_matches \<Rightarrow> g st')) =
   (case join_threads lt matcher item_substr_fn limit [0..<n] st 0 [] of
      (st', joined, r) \<Rightarrow> (case r of Inl msg \<Rightarrow> f msg | Inr nr_matches \<Rightarrow> g st'))"
  by (simp add: run_threads_def split: prod.splits sum.splits)

text \<open>
  What the destruction of \<^verbatim>\<open>threads\<close> does is not seen in what the request returns: the
  entry point, in terms of the join loop alone.
\<close>

lemma ctrlp_match_eq:
  "ctrlp_match env sched a =
     (if query_inverting_delimiter_data a \<noteq> [] \<and> 1 < length (query_inverting_delimiter_data a)
      then RuntimeError ''query inverting delimiter must be a single character''
      else
        (case request_matcher env a of
           Inl msg \<Rightarrow> RuntimeError msg
         | Inr matcher \<Rightarrow>
             (case match_mode_item_substr_fn env (mmode_data a) of
                Inl msg \<Rightarrow> RuntimeError msg
              | Inr item_substr_fn \<Rightarrow>
                  (let limit = limit_of (limit_int a);
                       nr_threads = nr_threads_of env a
                   in case items_obj a of
                        None \<Rightarrow> HostError
                      | Some iter \<Rightarrow>
                          (case join_threads (match_less env) matcher item_substr_fn limit
                                  [0..<nr_threads]
                                  (run_schedule (match_less env) matcher item_substr_fn limit sched
                                     (start_threads nr_threads iter))
                                  0 [] of
                             (st, joined, Inl msg) \<Rightarrow> RuntimeError msg
                           | (st, joined, Inr nr_matches) \<Rightarrow>
                               finish env matcher item_substr_fn limit (highlight_mode_data a) st)))))"
  unfolding ctrlp_match_def run_threads_case ..

lemmas demo_simps =
  ctrlp_match_eq request_matcher_def inverted_query_def nr_threads_of_def demo_env_def
  demo_args_def limit_of_def max_threads_of_def get_nr_threads_def start_threads_def step_def
  worker_iteration_def collect_batch.simps kBatchSizeBytes_def process_item_def item_str_of_def
  demo_matcher_def join_thread_def run_worker.simps finish_def sort_limit_def sort_by_def
  pop_heap_def Let_def upt_0_2 replicate_2

subsection \<open>The arguments of a request\<close>

text \<open>
  C6. A query inverting delimiter of more than one byte ends the request with the runtime
  error "query inverting delimiter must be a single character", whatever the other
  arguments and the collaborators are; no result is returned.
\<close>

theorem long_inverting_delimiter_rejected:
  assumes "1 < length (query_inverting_delimiter_data a)"
  shows "ctrlp_match env sched a =
           RuntimeError ''query inverting delimiter must be a single character''"
proof -
  from assms have "query_inverting_delimiter_data a \<noteq> []" by auto
  with assms show ?thesis by (simp add: ctrlp_match_def)
qed

theorem long_inverting_delimiter_rejected_witness:
  "1 < length (query_inverting_delimiter_data (demo_args\<lparr>query_inverting_delimiter_data := ''::''\<rparr>)) \<and>
   ctrlp_match demo_env [1, 0, 1] (demo_args\<lparr>query_inverting_delimiter_data := ''::''\<rparr>) =
     RuntimeError ''query inverting delimiter must be a single character''"
proof -
  have h: "1 < length (query_inverting_delimiter_data (demo_args\<lparr>query_inverting_delimiter_data := ''::''\<rparr>))"
    by simp
  from long_inverting_delimiter_rejected[OF h, of demo_env "[1, 0, 1]"] h show ?thesis by blast
qed

lemma limit_of_negative: "sint l < 0 \<Longrightarrow> limit_of l = 0"
  by (simp add: limit_of_def)

lemma max_threads_of_negative: "sint t < 0 \<Longrightarrow> max_threads_of t = 0"
  by (simp add: max_threads_of_def)

lemma limit_of_0: "limit_of 0 = 0"
  by (simp add: limit_of_def)

lemma max_threads_of_0: "max_threads_of 0 = 0"
  by (simp add: max_threads_of_def)

text \<open>
  C9. A negative \<open>limit\<close> is taken as 0 (no limit) and a negative \<open>max_threads\<close> as 0
  (as many threads as the hardware has): the request with the negative value does exactly
  what the request with 0 does, so it fails only where that one fails.
\<close>

theorem negative_limit_and_max_threads:
  "(sint l < 0 \<longrightarrow>
      limit_of l = 0 \<and>
      ctrlp_match env sched (a\<lparr>limit_int := l\<rparr>) = ctrlp_match env sched (a\<lparr>limit_int := 0\<rparr>)) \<and>
   (sint t < 0 \<longrightarrow>
      max_threads_of t = 0 \<and>
      ctrlp_match env sched (a\<lparr>max_threads_int := t\<rparr>) =
        ctrlp_match env sched (a\<lparr>max_threads_int := 0\<rparr>))"
proof (intro conjI impI)
  assume "sint l < 0"
  then show "limit_of l = 0" by (rule limit_of_negative)
  from \<open>sint l < 0\<close> show "ctrlp_match env sched (a\<lparr>limit_int := l\<rparr>) = ctrlp_match env sched (a\<lparr>limit_int := 0\<rparr>)"
    by (simp add: ctrlp_match_def request_matcher_def inverted_query_def nr_threads_of_def
        limit_of_negative limit_of_0 Let_def
        cong: sum.case_cong option.case_cong prod.case_cong if_cong)
next
  assume "sint t < 0"
  then show "max_threads_of t = 0" by (rule max_threads_of_negative)
  from \<open>sint t < 0\<close> show "ctrlp_match env sched (a\<lparr>max_threads_int := t\<rparr>) =
        ctrlp_match env sched (a\<lparr>max_threads_int := 0\<rparr>)"
    by (simp add: ctrlp_match_def request_matcher_def inverted_query_def nr_threads_of_def
        max_threads_of_negative max_threads_of_0 Let_def
        cong: sum.case_cong option.case_cong prod.case_cong if_cong)
qed

lemma demo_unlimited:
  "ctrlp_match demo_env [1, 0, 1] (demo_args\<lparr>limit_int := 0\<rparr>) =
     Result [PyString ''ab'', PyString ''abc'', PyString ''abcd''] []"
  by (simp add: demo_simps)

lemma demo_auto_threads:
  "ctrlp_match demo_env [1, 0, 1] (demo_args\<lparr>max_threads_int := 0\<rparr>) =
     Result [PyString ''ab'', PyString ''abc''] []"
  by (simp add: demo_simps)

theorem negative_limit_and_max_threads_witness:
  "sint (- 1 :: c_int) < 0 \<and> limit_of (- 1) = 0 \<and>
   ctrlp_match demo_env [1, 0, 1] (demo_args\<lparr>limit_int := - 1\<rparr>) =
     Result [PyString ''ab'', PyString ''abc'', PyString ''abcd''] [] \<and>
   sint (- 3 :: c_int) < 0 \<and> max_threads_of (- 3) = 0 \<and>
   ctrlp_match demo_env [1, 0, 1] (demo_args\<lparr>max_threads_int := - 3\<rparr>) =
     Result [PyString ''ab'', PyString ''abc''] []"
proof -
  have n1: "sint (- 1 :: c_int) < 0" by simp
  have n3: "sint (- 3 :: c_int) < 0" by simp
  from negative_limit_and_max_threads[of "- 1" demo_env "[1, 0, 1]" demo_args "- 3"] n1 n3
    demo_unlimited demo_auto_threads
  show ?thesis by simp
qed

subsection \<open>The batch loop\<close>

lemma batch_bytes_simps:
  "batch_bytes [] = 0"
  "batch_bytes (it # items) = length (fst it) + batch_bytes items"
  "batch_bytes (items @ items') = batch_bytes items + batch_bytes items'"
  by (simp_all add: batch_bytes_def)

lemma collect_batch_spec:
  assumes "collect_batch iter b items0 = (iter', items, e)"
  shows "\<exists>new. items = items0 @ new \<and>
      (\<forall>it \<in> set new. PyString_AsStringAndSize (snd it) = Some (fst it)) \<and>
      (new \<noteq> [] \<longrightarrow> b + batch_bytes (butlast new) < kBatchSizeBytes) \<and>
      (case e of
         BatchFull \<Rightarrow>
           iter = map (\<lambda>it. Yield (snd it)) new @ iter' \<and> kBatchSizeBytes \<le> b + batch_bytes new
       | IterEnd \<Rightarrow>
           (iter = map (\<lambda>it. Yield (snd it)) new \<and> iter' = [] \<or>
            iter = map (\<lambda>it. Yield (snd it)) new @ Raise # iter') \<and>
           b + batch_bytes new < kBatchSizeBytes
       | PythonEx \<Rightarrow>
           (\<exists>obj. iter = map (\<lambda>it. Yield (snd it)) new @ Yield obj # iter' \<and>
                  PyString_AsStringAndSize obj = None) \<and>
           b + batch_bytes new < kBatchSizeBytes)"
  using assms
proof (induction iter b items0 rule: collect_batch.induct)
  case (1 iter b items0)
  note eq0 = "1.prems"[unfolded collect_batch.simps[of iter b items0]]
  show ?case
  proof (cases "b < kBatchSizeBytes")
    case False
    with eq0 have "iter' = iter" "items = items0" "e = BatchFull" by auto
    with False show ?thesis by (intro exI[of _ "[]"]) (simp add: batch_bytes_simps)
  next
    case True
    note lt = this
    show ?thesis
    proof (cases iter rule: PyIter_Next.cases)
      case 1
      with lt eq0 have "iter' = []" "items = items0" "e = IterEnd" by auto
      with lt 1 show ?thesis by (intro exI[of _ "[]"]) (simp add: batch_bytes_simps)
    next
      case (3 rest)
      with lt eq0 have "iter' = rest" "items = items0" "e = IterEnd" by auto
      with lt 3 show ?thesis by (intro exI[of _ "[]"]) (simp add: batch_bytes_simps)
    next
      case (2 item_obj rest)
      then have nx: "PyIter_Next iter = (Some item_obj, rest)" by simp
      show ?thesis
      proof (cases "PyString_AsStringAndSize item_obj")
        case None
        with lt nx eq0 have "iter' = rest" "items = items0" "e = PythonEx" by auto
        with lt 2 None show ?thesis by (intro exI[of _ "[]"]) (simp add: batch_bytes_simps)
      next
        case (Some item_data)
        with lt nx eq0 have rec:
          "collect_batch rest (b + length item_data) (items0 @ [(item_data, item_obj)]) = (iter', items, e)"
          by simp
        from "1.IH"[OF lt nx[symmetric] refl Some rec] obtain new where
          n1: "items = (items0 @ [(item_data, item_obj)]) @ new" and
          n2: "\<forall>it \<in> set new. PyString_AsStringAndSize (snd it) = Some (fst it)" and
          n3: "new \<noteq> [] \<longrightarrow> b + length item_data + batch_bytes (butlast new) < kBatchSizeBytes" and
          n4: "(case e of
                 BatchFull \<Rightarrow> rest = map (\<lambda>it. Yield (snd it)) new @ iter' \<and>
                    kBatchSizeBytes \<le> b + length item_data + batch_bytes new
               | IterEnd \<Rightarrow>
                   (rest = map (\<lambda>it. Yield (snd it)) new \<and> iter' = [] \<or>
                    rest = map (\<lambda>it. Yield (snd it)) new @ Raise # iter') \<and>
                    b + length item_data + batch_bytes new < kBatchSizeBytes
               | PythonEx \<Rightarrow>
                   (\<exists>obj. rest = map (\<lambda>it. Yield (snd it)) new @ Yield obj # iter' \<and>
                          PyString_AsStringAndSize obj = None) \<and>
                   b + length item_data + batch_bytes new < kBatchSizeBytes)"
          by blast
        let ?new = "(item_data, item_obj) # new"
        have a: "items = items0 @ ?new" using n1 by simp
        have b: "\<forall>it \<in> set ?new. PyString_AsStringAndSize (snd it) = Some (fst it)"
          using n2 Some by simp
        have c: "?new \<noteq> [] \<longrightarrow> b + batch_bytes (butlast ?new) < kBatchSizeBytes"
          using n3 lt by (cases "new = []") (simp_all add: batch_bytes_simps)
        have d: "(case e of
           BatchFull \<Rightarrow>
             iter = map (\<lambda>it. Yield (snd it)) ?new @ iter' \<and> kBatchSizeBytes \<le> b + batch_bytes ?new
         | IterEnd \<Rightarrow>
             (iter = map (\<lambda>it. Yield (snd it)) ?new \<and> iter' = [] \<or>
              iter = map (\<lambda>it. Yield (snd it)) ?new @ Raise # iter') \<and>
             b + batch_bytes ?new < kBatchSizeBytes
         | PythonEx \<Rightarrow>
             (\<exists>obj. iter = map (\<lambda>it. Yield (snd it)) ?new @ Yield obj # iter' \<and>
                    PyString_AsStringAndSize obj = None) \<and>
             b + batch_bytes ?new < kBatchSizeBytes)"
          using n4 2 by (cases e) (auto simp: batch_bytes_simps)
        from a b c d show ?thesis by blast
      qed
    qed
  qed
qed

subsection \<open>One candidate, one batch\<close>

lemma heap_top_in: "heap_top lt t xs \<in> set (t # xs)"
  by (induction xs arbitrary: t) auto

lemma length_pop_heap: "v \<noteq> [] \<Longrightarrow> length (butlast (pop_heap lt v)) = length v - 1"
proof (cases v)
  case Nil
  assume "v \<noteq> []"
  with Nil show ?thesis by simp
next
  case (Cons x xs)
  have "heap_top lt x xs \<in> set v" using heap_top_in[of lt x xs] Cons by simp
  then have "length (remove1 (heap_top lt x xs) v) = length v - 1"
    by (simp add: length_remove1)
  then show ?thesis using Cons by (simp add: pop_heap_def Let_def)
qed

lemma process_item_length:
  assumes "process_item lt matcher item_substr_fn limit (ms, un) it = Inr (ms', un')"
  shows "length ms' =
           (if accepted matcher item_substr_fn it
            then (if limit \<noteq> 0 \<and> unat limit < Suc (length ms) then length ms else Suc (length ms))
            else length ms)"
proof (cases "matcher (item_str_of item_substr_fn (fst it)) False")
  case (Inl msg)
  with assms show ?thesis by (simp add: process_item_def)
next
  case (Inr r)
  show ?thesis
  proof (cases r)
    case None
    with Inr assms show ?thesis by (auto simp: process_item_def accepted_def)
  next
    case (Some p)
    obtain sc ps where p: "p = (sc, ps)" by (cases p)
    have len: "length (butlast (pop_heap lt (ms @ [Match it sc]))) = length ms"
      using length_pop_heap[of "ms @ [Match it sc]" lt] by simp
    from Inr Some p assms len show ?thesis
      by (auto simp: process_item_def accepted_def Let_def split: if_splits)
  qed
qed

lemma process_item_bound:
  assumes "process_item lt matcher item_substr_fn limit (ms, un) it = Inr (ms', un')"
    and "limit \<noteq> 0" and "length ms \<le> unat limit"
  shows "length ms' \<le> unat limit"
  using process_item_length[OF assms(1)] assms(2,3) by (auto split: if_splits)

lemma process_items_bound:
  assumes "process_items lt matcher item_substr_fn limit (ms, un) items = (r, ms', un')"
    and "limit \<noteq> 0" and "length ms \<le> unat limit"
  shows "length ms' \<le> unat limit"
  using assms
proof (induction items arbitrary: ms un)
  case Nil
  then show ?case by simp
next
  case (Cons it items)
  show ?case
  proof (cases "process_item lt matcher item_substr_fn limit (ms, un) it")
    case (Inl msg)
    with Cons.prems show ?thesis by simp
  next
    case (Inr st1)
    obtain ms1 un1 where st1: "st1 = (ms1, un1)" by (cases st1)
    from Inr st1 Cons.prems(1)
    have rec: "process_items lt matcher item_substr_fn limit (ms1, un1) items = (r, ms', un')"
      by simp
    from process_item_bound[OF Inr[unfolded st1] Cons.prems(2,3)]
    have "length ms1 \<le> unat limit" .
    from Cons.IH[OF rec Cons.prems(2) this] show ?thesis .
  qed
qed

lemma process_items_length:
  assumes "process_items lt matcher item_substr_fn limit (ms, un) items = (None, ms', un')"
    and "limit = 0 \<or> length ms \<le> unat limit"
  shows "length ms' = grow limit (length ms) (length (filter (accepted matcher item_substr_fn) items))"
  using assms
proof (induction items arbitrary: ms un)
  case Nil
  then show ?case by (auto simp: grow_def)
next
  case (Cons it items)
  show ?case
  proof (cases "process_item lt matcher item_substr_fn limit (ms, un) it")
    case (Inl msg)
    with Cons.prems show ?thesis by simp
  next
    case (Inr st1)
    obtain ms1 un1 where st1: "st1 = (ms1, un1)" by (cases st1)
    from Inr st1 Cons.prems(1)
    have rec: "process_items lt matcher item_substr_fn limit (ms1, un1) items = (None, ms', un')"
      by simp
    note len1 = process_item_length[OF Inr[unfolded st1]]
    from len1 Cons.prems(2) have b1: "limit = 0 \<or> length ms1 \<le> unat limit"
      by (auto split: if_splits)
    from Cons.IH[OF rec b1] len1 Cons.prems(2) show ?thesis
      by (auto simp: grow_def split: if_splits)
  qed
qed

subsection \<open>One turn of a worker\<close>

lemma worker_iteration_cases [consumes 1, case_names flagged python_ex empty raised matched]:
  assumes wi: "worker_iteration lt matcher item_substr_fn limit sh w = (sh', w')"
  obtains
    "end_of_python_iter sh \<or> have_python_ex sh" "sh' = sh"
      "status w' = Returned" "matches w' = matches w"
  | iter' items where "\<not> end_of_python_iter sh" "\<not> have_python_ex sh"
      "collect_batch (items_iter sh) 0 [] = (iter', items, PythonEx)"
      "sh' = sh\<lparr>items_iter := iter', have_python_ex := True\<rparr>"
      "status w' = Returned" "matches w' = matches w"
  | iter' e where "\<not> end_of_python_iter sh" "\<not> have_python_ex sh"
      "collect_batch (items_iter sh) 0 [] = (iter', [], e)" "e \<noteq> PythonEx"
      "sh' = sh\<lparr>items_iter := iter', end_of_python_iter := (e = IterEnd)\<rparr>"
      "status w' = Returned" "matches w' = matches w"
  | iter' items e msg ms un where "\<not> end_of_python_iter sh" "\<not> have_python_ex sh"
      "collect_batch (items_iter sh) 0 [] = (iter', items, e)" "e \<noteq> PythonEx" "items \<noteq> []"
      "process_items lt matcher item_substr_fn limit (matches w, []) items = (Some msg, ms, un)"
      "sh' = sh\<lparr>items_iter := iter', end_of_python_iter := (e = IterEnd)\<rparr>"
      "status w' = Raised msg" "matches w' = ms"
  | iter' items e ms un where "\<not> end_of_python_iter sh" "\<not> have_python_ex sh"
      "collect_batch (items_iter sh) 0 [] = (iter', items, e)" "e \<noteq> PythonEx" "items \<noteq> []"
      "process_items lt matcher item_substr_fn limit (matches w, []) items = (None, ms, un)"
      "sh' = sh\<lparr>items_iter := iter', end_of_python_iter := (e = IterEnd)\<rparr>"
      "status w' = status w" "matches w' = ms" "unmatched_objs w' = un"
proof (cases "end_of_python_iter sh \<or> have_python_ex sh")
  case True
  with wi have "sh' = sh" "status w' = Returned" "matches w' = matches w"
    by (auto simp: worker_iteration_def)
  with True that(1) show ?thesis by blast
next
  case False
  then have f: "\<not> end_of_python_iter sh" "\<not> have_python_ex sh" by auto
  obtain iter' items e where cb: "collect_batch (items_iter sh) 0 [] = (iter', items, e)"
    by (cases "collect_batch (items_iter sh) 0 []") auto
  show ?thesis
  proof (cases "e = PythonEx")
    case True
    with wi f cb have "sh' = sh\<lparr>items_iter := iter', have_python_ex := True\<rparr>"
      "status w' = Returned" "matches w' = matches w"
      by (auto simp: worker_iteration_def)
    with f cb True that(2) show ?thesis by blast
  next
    case False
    note npe = this
    show ?thesis
    proof (cases "items = []")
      case True
      with wi f cb npe
      have "sh' = sh\<lparr>items_iter := iter', end_of_python_iter := (e = IterEnd)\<rparr>"
        "status w' = Returned" "matches w' = matches w"
        by (auto simp: worker_iteration_def Let_def)
      with f cb npe True that(3) show ?thesis by blast
    next
      case False
      note ne = this
      obtain r ms un where
        pi: "process_items lt matcher item_substr_fn limit (matches w, []) items = (r, ms, un)"
        by (cases "process_items lt matcher item_substr_fn limit (matches w, []) items") auto
      show ?thesis
      proof (cases r)
        case None
        with wi f cb npe ne pi
        have "sh' = sh\<lparr>items_iter := iter', end_of_python_iter := (e = IterEnd)\<rparr>"
          "status w' = status w" "matches w' = ms" "unmatched_objs w' = un"
          by (auto simp: worker_iteration_def Let_def)
        with f cb npe ne pi None that(5) show ?thesis by blast
      next
        case (Some msg)
        with wi f cb npe ne pi
        have "sh' = sh\<lparr>items_iter := iter', end_of_python_iter := (e = IterEnd)\<rparr>"
          "status w' = Raised msg" "matches w' = ms"
          by (auto simp: worker_iteration_def Let_def)
        with f cb npe ne pi Some that(4) show ?thesis by blast
      qed
    qed
  qed
qed

lemma handed_out_append:
  "handed_out (map (\<lambda>it. Yield (snd it)) new @ rest) = map snd new @ handed_out rest"
  by (induction new) auto

lemma collect_batch_first:
  assumes "collect_batch iter 0 [] = (iter', items, e)" and "e \<noteq> PythonEx"
  shows "(\<forall>it \<in> set items. PyString_AsStringAndSize (snd it) = Some (fst it)) \<and>
         handed_out iter = map snd items @ (if e = IterEnd then [] else handed_out iter') \<and>
         (items = [] \<longrightarrow> e = IterEnd)"
proof -
  from collect_batch_spec[OF assms(1)] obtain new where
    n: "items = [] @ new" "\<forall>it \<in> set new. PyString_AsStringAndSize (snd it) = Some (fst it)"
    and c: "(case e of
         BatchFull \<Rightarrow>
           iter = map (\<lambda>it. Yield (snd it)) new @ iter' \<and> kBatchSizeBytes \<le> 0 + batch_bytes new
       | IterEnd \<Rightarrow>
           (iter = map (\<lambda>it. Yield (snd it)) new \<and> iter' = [] \<or>
            iter = map (\<lambda>it. Yield (snd it)) new @ Raise # iter') \<and>
           0 + batch_bytes new < kBatchSizeBytes
       | PythonEx \<Rightarrow>
           (\<exists>obj. iter = map (\<lambda>it. Yield (snd it)) new @ Yield obj # iter' \<and>
                  PyString_AsStringAndSize obj = None) \<and>
           0 + batch_bytes new < kBatchSizeBytes)"
    by blast
  have new: "new = items" using n(1) by simp
  have h: "handed_out iter = map snd items @ (if e = IterEnd then [] else handed_out iter')"
  proof (cases e)
    case BatchFull
    with c new show ?thesis by (simp add: handed_out_append)
  next
    case IterEnd
    with c new have "iter = map (\<lambda>it. Yield (snd it)) items @ [] \<or>
        iter = map (\<lambda>it. Yield (snd it)) items @ Raise # iter'"
      by auto
    then have "handed_out iter = map snd items @ []"
      by (auto simp only: handed_out_append handed_out.simps)
    with IterEnd show ?thesis by simp
  next
    case PythonEx
    with assms(2) show ?thesis by simp
  qed
  have z: "items = [] \<longrightarrow> e = IterEnd"
    using c new assms(2) by (cases e) (auto simp: batch_bytes_simps kBatchSizeBytes_def)
  from n(2) new h z show ?thesis by simp
qed

lemma accepted_is_match:
  "PyString_AsStringAndSize (snd it) = Some (fst it) \<Longrightarrow>
   accepted matcher item_substr_fn it = is_match matcher item_substr_fn (snd it)"
  by (simp add: accepted_def is_match_def)

lemma filter_accepted:
  assumes "\<forall>it \<in> set items. PyString_AsStringAndSize (snd it) = Some (fst it)"
  shows "length (filter (accepted matcher item_substr_fn) items) =
         length (filter (is_match matcher item_substr_fn) (map snd items))"
  using assms
  by (induction items) (auto simp: accepted_is_match)

subsection \<open>The invariant\<close>

lemma kept_update:
  assumes "i < length ws"
  shows "kept (ws[i := w']) + length (matches (ws ! i)) = kept ws + length (matches w')"
proof -
  let ?f = "\<lambda>w. length (matches w)"
  have "?f (ws ! i) \<le> sum_list (map ?f ws)"
    using assms by (intro member_le_sum_list) (auto intro!: imageI nth_mem)
  moreover have "sum_list ((map ?f ws)[i := ?f w']) = sum_list (map ?f ws) + ?f w' - (map ?f ws) ! i"
    using assms by (intro sum_list_update) simp
  ultimately show ?thesis using assms by (simp add: kept_def map_update)
qed


lemma failed_update_iff:
  assumes "i < length ws" and "status (ws ! i) = Running"
  shows "failed (sh', ws[i := w']) \<longleftrightarrow>
         have_python_ex sh' \<or> (\<exists>msg. status w' = Raised msg) \<or> failed (sh'\<lparr>have_python_ex := False\<rparr>, ws)"
proof -
  let ?R = "\<lambda>w. case status w of Raised msg \<Rightarrow> True | _ \<Rightarrow> False"
  have R: "?R w \<longleftrightarrow> (\<exists>msg. status w = Raised msg)" for w :: "'a worker"
    by (cases "status w") auto
  have nR: "\<not> ?R (ws ! i)" using assms(2) by simp
  have "(\<exists>n < length ws. ?R ((ws[i := w']) ! n)) \<longleftrightarrow> ?R w' \<or> (\<exists>n < length ws. ?R (ws ! n))"
  proof
    assume "\<exists>n < length ws. ?R ((ws[i := w']) ! n)"
    then obtain n where n: "n < length ws" "?R ((ws[i := w']) ! n)" by blast
    show "?R w' \<or> (\<exists>n < length ws. ?R (ws ! n))"
    proof (cases "n = i")
      case True
      with n assms(1) show ?thesis by simp
    next
      case False
      with n show ?thesis by auto
    qed
  next
    assume "?R w' \<or> (\<exists>n < length ws. ?R (ws ! n))"
    then show "\<exists>n < length ws. ?R ((ws[i := w']) ! n)"
    proof
      assume "?R w'"
      with assms(1) show ?thesis by (intro exI[of _ i]) simp
    next
      assume "\<exists>n < length ws. ?R (ws ! n)"
      then obtain n where n: "n < length ws" "?R (ws ! n)" by blast
      with nR have "n \<noteq> i" by auto
      with n show ?thesis by (intro exI[of _ n]) simp
    qed
  qed
  then show ?thesis
    by (simp add: failed_def list_ex_length R)
qed

lemma returned_update_iff:
  assumes "i < length ws" and "status (ws ! i) = Running"
  shows "list_ex (\<lambda>w. status w = Returned) (ws[i := w']) \<longleftrightarrow>
         status w' = Returned \<or> list_ex (\<lambda>w. status w = Returned) ws"
proof -
  let ?R = "\<lambda>w. status w = Returned"
  have nR: "\<not> ?R (ws ! i)" using assms(2) by simp
  have "(\<exists>n < length ws. ?R ((ws[i := w']) ! n)) \<longleftrightarrow> ?R w' \<or> (\<exists>n < length ws. ?R (ws ! n))"
  proof
    assume "\<exists>n < length ws. ?R ((ws[i := w']) ! n)"
    then obtain n where n: "n < length ws" "?R ((ws[i := w']) ! n)" by blast
    show "?R w' \<or> (\<exists>n < length ws. ?R (ws ! n))"
    proof (cases "n = i")
      case True
      with n assms(1) show ?thesis by simp
    next
      case False
      with n show ?thesis by auto
    qed
  next
    assume "?R w' \<or> (\<exists>n < length ws. ?R (ws ! n))"
    then show "\<exists>n < length ws. ?R ((ws[i := w']) ! n)"
    proof
      assume "?R w'"
      with assms(1) show ?thesis by (intro exI[of _ i]) simp
    next
      assume "\<exists>n < length ws. ?R (ws ! n)"
      then obtain n where n: "n < length ws" "?R (ws ! n)" by blast
      with nR have "n \<noteq> i" by auto
      with n show ?thesis by (intro exI[of _ n]) simp
    qed
  qed
  then show ?thesis
    by (simp add: list_ex_length)
qed

lemma heap_ok_update:
  assumes "heap_ok limit ws" and "i < length ws"
    and "limit = 0 \<or> length (matches w') \<le> unat limit"
  shows "heap_ok limit (ws[i := w'])"
proof (cases "limit = 0")
  case True
  then show ?thesis by (simp add: heap_ok_def)
next
  case False
  with assms(1) have all: "\<forall>n < length ws. length (matches (ws ! n)) \<le> unat limit"
    by (simp add: heap_ok_def list_all_length)
  have "length (matches ((ws[i := w']) ! n)) \<le> unat limit" if "n < length ws" for n
    using that all assms(2,3) False by (cases "n = i") auto
  then show ?thesis by (simp add: heap_ok_def list_all_length)
qed

lemma heap_ok_nth: "heap_ok limit ws \<Longrightarrow> i < length ws \<Longrightarrow> limit = 0 \<or> length (matches (ws ! i)) \<le> unat limit"
  by (auto simp: heap_ok_def list_all_length)

subsection \<open>An iterator that raises\<close>

lemma raising_iter_batch:
  "collect_batch [Yield (PyString ''ab''), Raise, Yield (PyString ''abc'')] 0 [] =
     ([Yield (PyString ''abc'')], [(''ab'', PyString ''ab'')], IterEnd)"
  by (simp add: collect_batch.simps kBatchSizeBytes_def)

lemma non_string_batch:
  "collect_batch [Yield (PyString ''ab''), Yield PyOther, Yield (PyString ''abc'')] 0 [] =
     ([Yield (PyString ''abc'')], [(''ab'', PyString ''ab'')], PythonEx)"
  by (simp add: collect_batch.simps kBatchSizeBytes_def)

lemma raising_iter_turn:
  "worker_iteration (match_less demo_env) (demo_matcher ''ab'') None 2
     (fresh_shared [Yield (PyString ''ab''), Raise, Yield (PyString ''abc'')]) fresh_worker =
   (\<lparr>items_iter = [Yield (PyString ''abc'')], end_of_python_iter = True, have_python_ex = False\<rparr>,
    \<lparr>status = Running, matches = [Match (''ab'', PyString ''ab'') 2], unmatched_objs = []\<rparr>)"
  by (simp add: worker_iteration_def fresh_shared_def fresh_worker_def raising_iter_batch
      process_item_def item_str_of_def demo_matcher_def Let_def)

lemma non_string_turn:
  "worker_iteration (match_less demo_env) (demo_matcher ''ab'') None 2
     (fresh_shared [Yield (PyString ''ab''), Yield PyOther, Yield (PyString ''abc'')]) fresh_worker =
   (\<lparr>items_iter = [Yield (PyString ''abc'')], end_of_python_iter = False, have_python_ex = True\<rparr>,
    \<lparr>status = Returned, matches = [], unmatched_objs = []\<rparr>)"
  by (simp add: worker_iteration_def fresh_shared_def fresh_worker_def non_string_batch)

lemma raising_iter_result:
  "ctrlp_match demo_env [] raising_iter_args = Result [PyString ''ab''] []"
  by (simp add: demo_simps raising_iter_args_def)

lemma non_string_result: "ctrlp_match demo_env [] non_string_args = HostError"
  by (simp add: demo_simps non_string_args_def)

text \<open>
  C7. The claim has a worker collect candidates until its batch holds at least
  \<open>kBatchSizeBytes = 8192\<close> bytes or the stream is at its end, and has it set the
  host-exception flag and leave at once when pulling a candidate raises a host-side error.
  The code does the latter for a candidate that is not a string (lines 220 to 224), and
  not for an iterator that raises: \<^verbatim>\<open>PyIter_Next\<close> then returns \<^verbatim>\<open>NULL\<close>, which lines 213
  to 217 take for the end of the stream. On the stream that hands out \<open>''ab''\<close> and then
  raises, the worker's turn sets \<open>end_of_python_iter\<close>, leaves \<open>have_python_ex\<close> clear and
  goes on to match \<open>''ab''\<close>, and the request returns a result; on the stream that holds a
  non-string at the same place, the turn sets \<open>have_python_ex\<close> and matches nothing, and
  the request returns the host's error.
\<close>

theorem raising_iterator_taken_as_end_of_stream:
  "PyIter_Next [Raise, Yield (PyString ''abc'')] = (None, [Yield (PyString ''abc'')]) \<and>
   collect_batch [Yield (PyString ''ab''), Raise, Yield (PyString ''abc'')] 0 [] =
     ([Yield (PyString ''abc'')], [(''ab'', PyString ''ab'')], IterEnd) \<and>
   worker_iteration (match_less demo_env) (demo_matcher ''ab'') None 2
     (fresh_shared [Yield (PyString ''ab''), Raise, Yield (PyString ''abc'')]) fresh_worker =
   (\<lparr>items_iter = [Yield (PyString ''abc'')], end_of_python_iter = True, have_python_ex = False\<rparr>,
    \<lparr>status = Running, matches = [Match (''ab'', PyString ''ab'') 2], unmatched_objs = []\<rparr>) \<and>
   items_obj raising_iter_args = Some [Yield (PyString ''ab''), Raise, Yield (PyString ''abc'')] \<and>
   ctrlp_match demo_env [] raising_iter_args = Result [PyString ''ab''] [] \<and>
   worker_iteration (match_less demo_env) (demo_matcher ''ab'') None 2
     (fresh_shared [Yield (PyString ''ab''), Yield PyOther, Yield (PyString ''abc'')]) fresh_worker =
   (\<lparr>items_iter = [Yield (PyString ''abc'')], end_of_python_iter = False, have_python_ex = True\<rparr>,
    \<lparr>status = Returned, matches = [], unmatched_objs = []\<rparr>) \<and>
   items_obj non_string_args =
     Some [Yield (PyString ''ab''), Yield PyOther, Yield (PyString ''abc'')] \<and>
   ctrlp_match demo_env [] non_string_args = HostError"
proof -
  have nx: "PyIter_Next [Raise, Yield (PyString ''abc'')] = (None, [Yield (PyString ''abc'')])"
    by simp
  have a: "items_obj raising_iter_args =
             Some [Yield (PyString ''ab''), Raise, Yield (PyString ''abc'')]"
    by (simp add: raising_iter_args_def)
  have b: "items_obj non_string_args =
             Some [Yield (PyString ''ab''), Yield PyOther, Yield (PyString ''abc'')]"
    by (simp add: non_string_args_def)
  from nx raising_iter_batch raising_iter_turn a raising_iter_result non_string_turn b
    non_string_result
  show ?thesis by (intro conjI)
qed

subsection \<open>The invariant through a turn\<close>

lemma worker_iteration_inv:
  assumes inv: "driver_inv matcher item_substr_fn limit tot (sh, ws)"
    and i: "i < length ws" and run: "status (ws ! i) = Running"
    and wi: "worker_iteration lt matcher item_substr_fn limit sh (ws ! i) = (sh', w')"
  shows "driver_inv matcher item_substr_fn limit tot (sh', ws[i := w'])"
proof -
  let ?T = "total_matches matcher item_substr_fn"
  let ?P = "pending matcher item_substr_fn"
  let ?Raised = "list_ex (\<lambda>w. case status w of Raised msg \<Rightarrow> True | _ \<Rightarrow> False)"
  from inv have H: "heap_ok limit ws"
    and F2: "list_ex (\<lambda>w. status w = Returned) ws \<Longrightarrow> end_of_python_iter sh \<or> have_python_ex sh"
    and C: "have_python_ex sh \<or> ?Raised ws \<or> kept ws + ?P sh = tot \<or>
            (limit \<noteq> 0 \<and> unat limit \<le> kept ws \<and> kept ws + ?P sh \<le> tot)"
    by (auto simp: driver_inv_def flags_ok_def count_ok_def failed_def split: if_splits)
  note Hi = heap_ok_nth[OF H i]
  have fl: "failed (s, ws[i := w']) \<longleftrightarrow>
         have_python_ex s \<or> (\<exists>msg. status w' = Raised msg) \<or> ?Raised ws" for s
    using failed_update_iff[OF i run, of s w'] by (simp add: failed_def)
  note rt = returned_update_iff[OF i run, of w']
  note ku = kept_update[OF i, of w']
  from wi show ?thesis
  proof (cases rule: worker_iteration_cases)
    case flagged
    have h: "heap_ok limit (ws[i := w'])"
      using heap_ok_update[OF H i] Hi flagged by simp
    have f: "flags_ok (sh', ws[i := w'])"
      using flagged by (auto simp: flags_ok_def rt)
    have k: "kept (ws[i := w']) = kept ws" using ku flagged by simp
    have c: "count_ok matcher item_substr_fn limit tot (sh', ws[i := w'])"
      using C flagged k by (auto simp: count_ok_def fl)
    from h f c show ?thesis by (simp add: driver_inv_def)
  next
    case (python_ex iter' items)
    have h: "heap_ok limit (ws[i := w'])"
      using heap_ok_update[OF H i] Hi python_ex by simp
    have f: "flags_ok (sh', ws[i := w'])"
      using python_ex by (auto simp: flags_ok_def rt)
    have c: "count_ok matcher item_substr_fn limit tot (sh', ws[i := w'])"
      using python_ex by (auto simp: count_ok_def fl)
    from h f c show ?thesis by (simp add: driver_inv_def)
  next
    case (empty iter' e)
    from collect_batch_first[OF empty(3,4)]
    have e: "e = IterEnd" and ho: "handed_out (items_iter sh) = []" by auto
    have h: "heap_ok limit (ws[i := w'])"
      using heap_ok_update[OF H i] Hi empty by simp
    have f: "flags_ok (sh', ws[i := w'])"
      using empty e by (auto simp: flags_ok_def rt)
    have k: "kept (ws[i := w']) = kept ws" using ku empty by simp
    have p: "?P sh = 0" "?P sh' = 0"
      using ho empty(5) e by (simp_all add: pending_def total_matches_def)
    have c: "count_ok matcher item_substr_fn limit tot (sh', ws[i := w'])"
      using C empty(1,2,5) k p by (auto simp: count_ok_def fl)
    from h f c show ?thesis by (simp add: driver_inv_def)
  next
    case (raised iter' items e msg ms un)
    have b: "limit = 0 \<or> length ms \<le> unat limit"
      using process_items_bound[OF raised(6)] Hi by auto
    have h: "heap_ok limit (ws[i := w'])"
      using heap_ok_update[OF H i] b raised by simp
    have nr: "\<not> list_ex (\<lambda>w. status w = Returned) ws" using F2 raised(1,2) by auto
    have f: "flags_ok (sh', ws[i := w'])"
      using raised nr by (auto simp: flags_ok_def rt)
    have c: "count_ok matcher item_substr_fn limit tot (sh', ws[i := w'])"
      using raised by (auto simp: count_ok_def fl)
    from h f c show ?thesis by (simp add: driver_inv_def)
  next
    case (matched iter' items e ms un)
    from collect_batch_first[OF matched(3,4)]
    have ok: "\<forall>it \<in> set items. PyString_AsStringAndSize (snd it) = Some (fst it)"
      and pre: "handed_out (items_iter sh) =
                  map snd items @ (if e = IterEnd then [] else handed_out iter')" by auto
    have b: "limit = 0 \<or> length ms \<le> unat limit"
      using process_items_bound[OF matched(6)] Hi by auto
    have h: "heap_ok limit (ws[i := w'])"
      using heap_ok_update[OF H i] b matched by simp
    have nr: "\<not> list_ex (\<lambda>w. status w = Returned) ws" using F2 matched(1,2) by auto
    have f: "flags_ok (sh', ws[i := w'])"
      using matched nr run by (auto simp: flags_ok_def rt)
    define c where "c = length (filter (is_match matcher item_substr_fn) (map snd items))"
    have len: "length ms = grow limit (length (matches (ws ! i))) c"
      using process_items_length[OF matched(6) Hi] filter_accepted[OF ok, of matcher item_substr_fn]
      by (simp add: c_def)
    have pend: "?P sh = c + ?P sh'"
      using pre matched(1,7) by (simp add: pending_def total_matches_def c_def)
    have k: "kept (ws[i := w']) + length (matches (ws ! i)) = kept ws + length ms"
      using ku matched by simp
    have le: "length (matches (ws ! i)) \<le> kept ws"
      using i unfolding kept_def by (intro member_le_sum_list) (auto intro!: imageI nth_mem)
    have c: "count_ok matcher item_substr_fn limit tot (sh', ws[i := w'])"
    proof (cases "have_python_ex sh \<or> ?Raised ws")
      case True
      with matched(2) show ?thesis by (auto simp: count_ok_def fl)
    next
      case False
      with C have C': "kept ws + ?P sh = tot \<or>
            (limit \<noteq> 0 \<and> unat limit \<le> kept ws \<and> kept ws + ?P sh \<le> tot)"
        by auto
      have "kept (ws[i := w']) + ?P sh' = tot \<or>
            (limit \<noteq> 0 \<and> unat limit \<le> kept (ws[i := w']) \<and> kept (ws[i := w']) + ?P sh' \<le> tot)"
      proof (cases "limit = 0")
        case True
        with len have "length ms = length (matches (ws ! i)) + c" by (simp add: grow_def)
        with k pend C' True show ?thesis by auto
      next
        case False
        with len have len': "length ms = min (unat limit) (length (matches (ws ! i)) + c)"
          by (simp add: grow_def)
        from Hi False have hb: "length (matches (ws ! i)) \<le> unat limit" by simp
        show ?thesis
        proof (cases "length (matches (ws ! i)) + c \<le> unat limit")
          case True
          with len' have "length ms = length (matches (ws ! i)) + c" by simp
          with k have "kept (ws[i := w']) = kept ws + c" by simp
          with pend C' False show ?thesis by auto
        next
          case False
          with len' have lm: "length ms = unat limit" by simp
          with k le have ge: "unat limit \<le> kept (ws[i := w'])" by linarith
          from lm k False have "kept (ws[i := w']) \<le> kept ws + c" by linarith
          with pend C' have "kept (ws[i := w']) + ?P sh' \<le> tot" by auto
          with ge \<open>limit \<noteq> 0\<close> show ?thesis by simp
        qed
      qed
      then show ?thesis by (simp add: count_ok_def)
    qed
    from h f c show ?thesis by (simp add: driver_inv_def)
  qed
qed

subsection \<open>Schedules and joins\<close>

lemma step_inv:
  assumes "driver_inv matcher item_substr_fn limit tot st"
  shows "driver_inv matcher item_substr_fn limit tot (step lt matcher item_substr_fn limit i st)"
proof -
  obtain sh ws where st: "st = (sh, ws)" by (cases st)
  show ?thesis
  proof (cases "i < length ws \<and> status (ws ! i) = Running")
    case False
    with assms st show ?thesis by (auto simp: step_def)
  next
    case True
    obtain sh' w' where wi: "worker_iteration lt matcher item_substr_fn limit sh (ws ! i) = (sh', w')"
      by (cases "worker_iteration lt matcher item_substr_fn limit sh (ws ! i)") auto
    from worker_iteration_inv[OF assms[unfolded st] _ _ wi] True
    have "driver_inv matcher item_substr_fn limit tot (sh', ws[i := w'])" by simp
    with True st wi show ?thesis by (simp add: step_def)
  qed
qed

lemma run_schedule_inv:
  "driver_inv matcher item_substr_fn limit tot st \<Longrightarrow>
   driver_inv matcher item_substr_fn limit tot (run_schedule lt matcher item_substr_fn limit sched st)"
  by (induction sched arbitrary: st) (simp_all add: step_inv)

lemma step_length: "length (snd (step lt matcher item_substr_fn limit i st)) = length (snd st)"
  by (cases st) (auto simp: step_def split: prod.splits)

lemma run_schedule_length:
  "length (snd (run_schedule lt matcher item_substr_fn limit sched st)) = length (snd st)"
  by (induction sched arbitrary: st) (simp_all add: step_length)

lemma run_worker_status:
  "run_worker lt matcher item_substr_fn limit sh w = (sh', w') \<Longrightarrow> status w' \<noteq> Running"
proof (induction lt matcher item_substr_fn limit sh w rule: run_worker.induct)
  case (1 lt matcher item_substr_fn limit sh w)
  show ?case
  proof (cases "status w = Running")
    case False
    with "1.prems" show ?thesis
      by (simp add: run_worker.simps[of lt matcher item_substr_fn limit sh w])
  next
    case True
    obtain sh1 w1 where wi: "worker_iteration lt matcher item_substr_fn limit sh w = (sh1, w1)"
      by (cases "worker_iteration lt matcher item_substr_fn limit sh w") auto
    from True wi "1.prems"
    have "run_worker lt matcher item_substr_fn limit sh1 w1 = (sh', w')"
      by (simp add: run_worker.simps[of lt matcher item_substr_fn limit sh w])
    from "1.IH"[OF True wi[symmetric] this] show ?thesis .
  qed
qed

lemma run_worker_idle:
  "status w \<noteq> Running \<Longrightarrow> run_worker lt matcher item_substr_fn limit sh w = (sh, w)"
  by (simp add: run_worker.simps[of lt matcher item_substr_fn limit sh w])

lemma run_worker_inv:
  assumes "run_worker lt matcher item_substr_fn limit sh w = (sh', w')"
    and "driver_inv matcher item_substr_fn limit tot (sh, ws)"
    and "i < length ws" and "ws ! i = w"
  shows "driver_inv matcher item_substr_fn limit tot (sh', ws[i := w'])"
  using assms
proof (induction lt matcher item_substr_fn limit sh w arbitrary: ws rule: run_worker.induct)
  case (1 lt matcher item_substr_fn limit sh w)
  show ?case
  proof (cases "status w = Running")
    case False
    with "1.prems" show ?thesis
      by (auto simp: run_worker.simps[of lt matcher item_substr_fn limit sh w])
  next
    case True
    obtain sh1 w1 where wi: "worker_iteration lt matcher item_substr_fn limit sh w = (sh1, w1)"
      by (cases "worker_iteration lt matcher item_substr_fn limit sh w") auto
    from True wi "1.prems"(1)
    have rec: "run_worker lt matcher item_substr_fn limit sh1 w1 = (sh', w')"
      by (simp add: run_worker.simps[of lt matcher item_substr_fn limit sh w])
    from "1.prems" True wi
    have inv1: "driver_inv matcher item_substr_fn limit tot (sh1, ws[i := w1])"
      using worker_iteration_inv[of matcher item_substr_fn limit tot sh ws i lt sh1 w1] by simp
    from "1.IH"[OF True wi[symmetric] rec inv1] "1.prems"(3)
    show ?thesis by simp
  qed
qed

lemma join_thread_facts:
  assumes "i < length (snd st)"
  shows "status (snd (join_thread lt matcher item_substr_fn limit i st) ! i) \<noteq> Running"
    and "length (snd (join_thread lt matcher item_substr_fn limit i st)) = length (snd st)"
    and "j \<noteq> i \<Longrightarrow> snd (join_thread lt matcher item_substr_fn limit i st) ! j = snd st ! j"
    and "status (snd st ! i) \<noteq> Running \<Longrightarrow> join_thread lt matcher item_substr_fn limit i st = st"
proof -
  obtain sh ws where st: "st = (sh, ws)" by (cases st)
  obtain sh' w' where rw: "run_worker lt matcher item_substr_fn limit sh (ws ! i) = (sh', w')"
    by (cases "run_worker lt matcher item_substr_fn limit sh (ws ! i)") auto
  from assms st rw have jt: "join_thread lt matcher item_substr_fn limit i st = (sh', ws[i := w'])"
    by (simp add: join_thread_def)
  from run_worker_status[OF rw] jt assms st
  show "status (snd (join_thread lt matcher item_substr_fn limit i st) ! i) \<noteq> Running" by simp
  from jt st show "length (snd (join_thread lt matcher item_substr_fn limit i st)) = length (snd st)"
    by simp
  from jt st show "j \<noteq> i \<Longrightarrow> snd (join_thread lt matcher item_substr_fn limit i st) ! j = snd st ! j"
    by simp
  show "status (snd st ! i) \<noteq> Running \<Longrightarrow> join_thread lt matcher item_substr_fn limit i st = st"
    using assms st by (simp add: join_thread_def run_worker_idle)
qed

lemma join_thread_inv:
  assumes "driver_inv matcher item_substr_fn limit tot st" and "i < length (snd st)"
  shows "driver_inv matcher item_substr_fn limit tot (join_thread lt matcher item_substr_fn limit i st)"
proof -
  obtain sh ws where st: "st = (sh, ws)" by (cases st)
  obtain sh' w' where rw: "run_worker lt matcher item_substr_fn limit sh (ws ! i) = (sh', w')"
    by (cases "run_worker lt matcher item_substr_fn limit sh (ws ! i)") auto
  from run_worker_inv[OF rw assms(1)[unfolded st]] assms(2) st rw show ?thesis
    by (simp add: join_thread_def)
qed

lemma join_threads_trace:
  assumes "join_threads lt matcher item_substr_fn limit js st nr joined = (st', joined', r)"
    and "distinct js" and "\<forall>i \<in> set js. i < length (snd st)"
  shows "length (snd st') = length (snd st) \<and>
         (\<forall>j. j \<notin> set js \<longrightarrow> snd st' ! j = snd st ! j) \<and>
         (case r of
            Inl msg \<Rightarrow>
              (\<exists>pre i post. js = pre @ i # post \<and> joined' = joined @ pre @ [i] \<and>
                 status (snd st' ! i) = Raised msg \<and>
                 (\<forall>j \<in> set pre. status (snd st' ! j) = Returned) \<and>
                 (\<forall>j \<in> set post. snd st' ! j = snd st ! j))
          | Inr nr' \<Rightarrow> joined' = joined @ js \<and> (\<forall>j \<in> set js. status (snd st' ! j) = Returned))"
  using assms
proof (induction js arbitrary: st nr joined)
  case Nil
  then show ?case by auto
next
  case (Cons i rest)
  let ?st1 = "join_thread lt matcher item_substr_fn limit i st"
  from Cons.prems(3) have i: "i < length (snd st)" by simp
  note jf = join_thread_facts[OF i, where lt=lt and matcher=matcher
      and item_substr_fn=item_substr_fn and limit=limit]
  show ?case
  proof (cases "status (snd ?st1 ! i)")
    case (Raised msg)
    with Cons.prems(1) have res: "st' = ?st1" "joined' = joined @ [i]" "r = Inl msg"
      by (simp_all add: Let_def)
    from Cons.prems(2) have ni: "\<forall>j \<in> set rest. j \<noteq> i" by auto
    have "\<exists>pre ia post. i # rest = pre @ ia # post \<and> joined' = joined @ pre @ [ia] \<and>
                 status (snd st' ! ia) = Raised msg \<and>
                 (\<forall>j \<in> set pre. status (snd st' ! j) = Returned) \<and>
                 (\<forall>j \<in> set post. snd st' ! j = snd st ! j)"
      using res Raised ni jf(3) by (intro exI[of _ "[]"] exI[of _ i] exI[of _ rest]) simp
    with res jf(2,3) show ?thesis by simp
  next
    case Running
    with jf(1) show ?thesis by simp
  next
    case Returned
    with Cons.prems(1)
    have rec: "join_threads lt matcher item_substr_fn limit rest ?st1
                 (nr + length (matches (snd ?st1 ! i))) (joined @ [i]) = (st', joined', r)"
      by (simp add: Let_def)
    from Cons.prems(2) have d: "distinct rest" and ni: "i \<notin> set rest" by auto
    from Cons.prems(3) jf(2) have b: "\<forall>j \<in> set rest. j < length (snd ?st1)" by simp
    from Cons.IH[OF rec d b]
    have l: "length (snd st') = length (snd ?st1)"
      and same: "\<forall>j. j \<notin> set rest \<longrightarrow> snd st' ! j = snd ?st1 ! j"
      and c: "(case r of
            Inl msg \<Rightarrow>
              (\<exists>pre ia post. rest = pre @ ia # post \<and> joined' = (joined @ [i]) @ pre @ [ia] \<and>
                 status (snd st' ! ia) = Raised msg \<and>
                 (\<forall>j \<in> set pre. status (snd st' ! j) = Returned) \<and>
                 (\<forall>j \<in> set post. snd st' ! j = snd ?st1 ! j))
          | Inr nr' \<Rightarrow> joined' = (joined @ [i]) @ rest \<and>
                 (\<forall>j \<in> set rest. status (snd st' ! j) = Returned))"
      by auto
    from same ni Returned have si: "status (snd st' ! i) = Returned" by simp
    have a1: "length (snd st') = length (snd st)" using l jf(2) by simp
    have a2: "\<forall>j. j \<notin> set (i # rest) \<longrightarrow> snd st' ! j = snd st ! j"
      using same jf(3) by simp
    have a3: "(case r of
            Inl msg \<Rightarrow>
              (\<exists>pre ia post. i # rest = pre @ ia # post \<and> joined' = joined @ pre @ [ia] \<and>
                 status (snd st' ! ia) = Raised msg \<and>
                 (\<forall>j \<in> set pre. status (snd st' ! j) = Returned) \<and>
                 (\<forall>j \<in> set post. snd st' ! j = snd st ! j))
          | Inr nr' \<Rightarrow> joined' = joined @ (i # rest) \<and>
                 (\<forall>j \<in> set (i # rest). status (snd st' ! j) = Returned))"
    proof (cases r)
      case (Inr nr')
      with c si show ?thesis by simp
    next
      case (Inl msg)
      with c obtain pre ia post where p: "rest = pre @ ia # post"
        "joined' = (joined @ [i]) @ pre @ [ia]" "status (snd st' ! ia) = Raised msg"
        "\<forall>j \<in> set pre. status (snd st' ! j) = Returned"
        "\<forall>j \<in> set post. snd st' ! j = snd ?st1 ! j"
        by auto
      from p(1) ni have "\<forall>j \<in> set post. j \<noteq> i" by auto
      with p(5) jf(3) have "\<forall>j \<in> set post. snd st' ! j = snd st ! j" by simp
      with p si have "i # rest = (i # pre) @ ia # post \<and> joined' = joined @ (i # pre) @ [ia] \<and>
                 status (snd st' ! ia) = Raised msg \<and>
                 (\<forall>j \<in> set (i # pre). status (snd st' ! j) = Returned) \<and>
                 (\<forall>j \<in> set post. snd st' ! j = snd st ! j)"
        by simp
      then have "\<exists>pre ia post. i # rest = pre @ ia # post \<and> joined' = joined @ pre @ [ia] \<and>
                 status (snd st' ! ia) = Raised msg \<and>
                 (\<forall>j \<in> set pre. status (snd st' ! j) = Returned) \<and>
                 (\<forall>j \<in> set post. snd st' ! j = snd st ! j)"
        by blast
      with Inl show ?thesis by simp
    qed
    from a1 a2 a3 show ?thesis by blast
  qed
qed

lemma join_threads_inv:
  assumes "join_threads lt matcher item_substr_fn limit js st nr joined = (st', joined', r)"
    and "\<forall>i \<in> set js. i < length (snd st)"
    and "driver_inv matcher item_substr_fn limit tot st"
  shows "driver_inv matcher item_substr_fn limit tot st'"
  using assms
proof (induction js arbitrary: st nr joined)
  case Nil
  then show ?case by simp
next
  case (Cons i rest)
  let ?st1 = "join_thread lt matcher item_substr_fn limit i st"
  from Cons.prems(2) have i: "i < length (snd st)" by simp
  note jf = join_thread_facts[OF i, where lt=lt and matcher=matcher
      and item_substr_fn=item_substr_fn and limit=limit]
  note inv1 = join_thread_inv[OF Cons.prems(3) i, where lt=lt]
  show ?case
  proof (cases "status (snd ?st1 ! i)")
    case (Raised msg)
    with Cons.prems(1) have "st' = ?st1" by (simp add: Let_def)
    with inv1 show ?thesis by simp
  next
    case Running
    with jf(1) show ?thesis by simp
  next
    case Returned
    with Cons.prems(1)
    have rec: "join_threads lt matcher item_substr_fn limit rest ?st1
                 (nr + length (matches (snd ?st1 ! i))) (joined @ [i]) = (st', joined', r)"
      by (simp add: Let_def)
    from Cons.prems(2) jf(2) have b: "\<forall>j \<in> set rest. j < length (snd ?st1)" by simp
    from Cons.IH[OF rec b inv1] show ?thesis .
  qed
qed

subsection \<open>From the first turn to the result\<close>

lemma start_threads_inv:
  "driver_inv matcher item_substr_fn limit (total_matches matcher item_substr_fn iter)
     (start_threads n iter)"
proof -
  have k: "kept (replicate n \<lparr>status = Running, matches = [], unmatched_objs = []\<rparr> :: 'a worker list) = 0"
    by (simp add: kept_def)
  show ?thesis
    by (simp add: driver_inv_def heap_ok_def flags_ok_def count_ok_def pending_def
        start_threads_def k list_all_length list_ex_length)
qed

lemma length_insert_by: "length (insert_by lt x ys) = Suc (length ys)"
  by (induction ys) auto

lemma length_sort_by: "length (sort_by lt v) = length v"
  by (induction v) (auto simp: sort_by_def length_insert_by)

lemma length_sort_limit:
  "length (sort_limit lt v limit) = (if limit = 0 then length v else min (unat limit) (length v))"
  by (auto simp: sort_limit_def length_sort_by)

lemma length_all_matches: "length (concat (map matches ws)) = kept ws"
  by (simp add: length_concat kept_def comp_def)

lemma result_size:
  assumes inv: "driver_inv matcher item_substr_fn limit tot st"
    and nex: "\<not> have_python_ex (fst st)"
    and ne: "0 < length (snd st)"
    and ret: "\<forall>j < length (snd st). status (snd st ! j) = Returned"
  shows "length (sort_limit lt (concat (map matches (snd st))) limit) =
           (if limit = 0 then tot else min tot (unat limit))"
proof -
  have nf: "\<not> failed st"
    using nex ret by (auto simp: failed_def list_ex_length)
  from ne ret have "list_ex (\<lambda>w. status w = Returned) (snd st)"
    by (auto simp: list_ex_length)
  with inv nex have "end_of_python_iter (fst st)"
    by (auto simp: driver_inv_def flags_ok_def split: if_splits)
  with inv nf have "kept (snd st) = tot \<or>
      (limit \<noteq> 0 \<and> unat limit \<le> kept (snd st) \<and> kept (snd st) \<le> tot)"
    by (auto simp: driver_inv_def count_ok_def pending_def)
  then show ?thesis
    by (auto simp: length_sort_limit length_all_matches)
qed

lemma finish_Result:
  assumes "finish env matcher item_substr_fn limit highlight_mode st = Result hs rs"
  shows "\<not> have_python_ex (fst st) \<and>
         length hs = length (sort_limit (match_less env) (concat (map matches (snd st))) limit)"
  using assms
  by (auto simp: finish_def Let_def split: if_splits sum.splits)

lemma heap_ok_set: "heap_ok limit ws \<Longrightarrow> limit \<noteq> 0 \<Longrightarrow> w \<in> set ws \<Longrightarrow> length (matches w) \<le> unat limit"
  by (auto simp: heap_ok_def list_all_iff)

text \<open>
  C1. With a limit \<open>K > 0\<close>, a worker's vector of matches has at most \<open>K\<close> elements after
  each candidate it has dealt with: the step for one candidate keeps the bound, and the
  bound holds for every worker in every state the threads reach, under any schedule of
  turns and through the joins (a join is a run of turns of the joined worker). When the request returns a result, the list of matches has
  \<open>min total_matches K\<close> elements, and \<open>total_matches\<close> elements when \<open>K = 0\<close>.
  (\<^verbatim>\<open>sort_limit\<close> is modelled from the spec.)
\<close>

theorem top_k_bound_and_result_size:
  fixes env :: "'s env"
  assumes rm: "request_matcher env a = Inr matcher"
    and sb: "match_mode_item_substr_fn env (mmode_data a) = Inr item_substr_fn"
    and it: "items_obj a = Some iter"
  defines "K \<equiv> limit_of (limit_int a)"
  defines "start \<equiv> start_threads (nr_threads_of env a) iter :: 's threads"
  shows
    "(\<forall>ms un x ms' un'.
        K \<noteq> 0 \<and> length ms \<le> unat K \<and>
        process_item (match_less env) matcher item_substr_fn K (ms, un) x = Inr (ms', un')
        \<longrightarrow> length ms' \<le> unat K) \<and>
     (\<forall>sched' w.
        K \<noteq> 0 \<and> w \<in> set (snd (run_schedule (match_less env) matcher item_substr_fn K sched' start))
        \<longrightarrow> length (matches w) \<le> unat K) \<and>
     (\<forall>st joined r w.
        K \<noteq> 0 \<and>
        join_threads (match_less env) matcher item_substr_fn K [0..<nr_threads_of env a]
          (run_schedule (match_less env) matcher item_substr_fn K sched start) 0 [] = (st, joined, r) \<and>
        w \<in> set (snd st)
        \<longrightarrow> length (matches w) \<le> unat K) \<and>
     (\<forall>hs rs.
        ctrlp_match env sched a = Result hs rs
        \<longrightarrow> length hs =
             (if K = 0 then total_matches matcher item_substr_fn iter
              else min (total_matches matcher item_substr_fn iter) (unat K)))"
proof -
  let ?lt = "match_less env"
  let ?n = "nr_threads_of env a"
  let ?tot = "total_matches matcher item_substr_fn iter"
  let ?run = "\<lambda>s. run_schedule ?lt matcher item_substr_fn K s start"
  have inv0: "driver_inv matcher item_substr_fn K ?tot start"
    unfolding start_def by (rule start_threads_inv)
  have inv_run: "driver_inv matcher item_substr_fn K ?tot (?run s)" for s
    by (rule run_schedule_inv[OF inv0])
  have len_run: "length (snd (?run s)) = ?n" for s
    by (simp add: run_schedule_length start_def start_threads_def)
  have a: "\<forall>ms un x ms' un'.
        K \<noteq> 0 \<and> length ms \<le> unat K \<and>
        process_item ?lt matcher item_substr_fn K (ms, un) x = Inr (ms', un')
        \<longrightarrow> length ms' \<le> unat K"
    using process_item_bound by blast
  have b: "\<forall>sched' w. K \<noteq> 0 \<and> w \<in> set (snd (?run sched')) \<longrightarrow> length (matches w) \<le> unat K"
    using inv_run heap_ok_set by (fastforce simp: driver_inv_def)
  have joined_inv: "driver_inv matcher item_substr_fn K ?tot st"
    if "join_threads ?lt matcher item_substr_fn K [0..<?n] (?run sched) 0 [] = (st, joined, r)"
    for st joined r
    using join_threads_inv[OF that _ inv_run] by (simp add: len_run)
  have c: "\<forall>st joined r w.
        K \<noteq> 0 \<and>
        join_threads ?lt matcher item_substr_fn K [0..<?n] (?run sched) 0 [] = (st, joined, r) \<and>
        w \<in> set (snd st)
        \<longrightarrow> length (matches w) \<le> unat K"
    using joined_inv heap_ok_set by (fastforce simp: driver_inv_def)
  have d: "length hs = (if K = 0 then ?tot else min ?tot (unat K))"
    if res: "ctrlp_match env sched a = Result hs rs" for hs rs
  proof -
    obtain st joined r where
      jt: "join_threads ?lt matcher item_substr_fn K [0..<?n] (?run sched) 0 [] = (st, joined, r)"
      by (cases "join_threads ?lt matcher item_substr_fn K [0..<?n] (?run sched) 0 []") auto
    from res rm sb it jt obtain nr where r: "r = Inr nr"
      and fin: "finish env matcher item_substr_fn K (highlight_mode_data a) st = Result hs rs"
      by (cases r)
         (auto simp: ctrlp_match_eq K_def start_def Let_def split: if_splits)
    from join_threads_trace[OF jt] r
    have len: "length (snd st) = ?n"
      and ret: "\<forall>j \<in> set [0..<?n]. status (snd st ! j) = Returned"
      by (auto simp: len_run)
    from finish_Result[OF fin]
    have nex: "\<not> have_python_ex (fst st)"
      and lh: "length hs = length (sort_limit ?lt (concat (map matches (snd st))) K)"
      by auto
    from result_size[OF joined_inv[OF jt] nex, of ?lt] len ret nr_threads_of_pos[of env a] lh
    show ?thesis by simp
  qed
  from a b c d show ?thesis by blast
qed

subsection \<open>The concrete request, evaluated\<close>

lemma demo_request:
  "request_matcher demo_env demo_args = Inr (demo_matcher ''ab'')"
  "match_mode_item_substr_fn demo_env (mmode_data demo_args) = Inr None"
  "nr_threads_of demo_env demo_args = 2"
  "limit_of (limit_int demo_args) = 2"
  "\<not> 1 < length (query_inverting_delimiter_data demo_args)"
  by (simp_all add: request_matcher_def inverted_query_def demo_env_def demo_args_def
      nr_threads_of_def max_threads_of_def get_nr_threads_def limit_of_def)

lemma demo_result:
  "ctrlp_match demo_env [1, 0, 1] demo_args = Result [PyString ''ab'', PyString ''abc''] []"
  by (simp add: demo_simps)

lemma demo_total:
  "total_matches (demo_matcher ''ab'') None
     (map Yield [PyString ''abc'', PyString ''xy'', PyString ''ab'', PyString ''abcd'']) = 3"
  by (simp add: total_matches_def is_match_def item_str_of_def demo_matcher_def)

theorem top_k_bound_and_result_size_witness:
  "request_matcher demo_env demo_args = Inr (demo_matcher ''ab'') \<and>
   match_mode_item_substr_fn demo_env (mmode_data demo_args) = Inr None \<and>
   items_obj demo_args =
     Some (map Yield [PyString ''abc'', PyString ''xy'', PyString ''ab'', PyString ''abcd'']) \<and>
   ctrlp_match demo_env [1, 0, 1] demo_args = Result [PyString ''ab'', PyString ''abc''] [] \<and>
   total_matches (demo_matcher ''ab'') None
     (map Yield [PyString ''abc'', PyString ''xy'', PyString ''ab'', PyString ''abcd'']) = 3 \<and>
   unat (limit_of (limit_int demo_args)) = 2 \<and>
   length [PyString ''ab'', PyString ''abc''] = min 3 (2::nat)"
proof -
  have it: "items_obj demo_args =
     Some (map Yield [PyString ''abc'', PyString ''xy'', PyString ''ab'', PyString ''abcd''])"
    by (simp add: demo_args_def)
  note inst = top_k_bound_and_result_size[OF demo_request(1) demo_request(2) it, of "[1, 0, 1]"]
  from inst demo_result
  have "length [PyString ''ab'', PyString ''abc''] =
          (if limit_of (limit_int demo_args) = 0
           then total_matches (demo_matcher ''ab'') None
                  (map Yield [PyString ''abc'', PyString ''xy'', PyString ''ab'', PyString ''abcd''])
           else min (total_matches (demo_matcher ''ab'') None
                  (map Yield [PyString ''abc'', PyString ''xy'', PyString ''ab'', PyString ''abcd'']))
                  (unat (limit_of (limit_int demo_args))))"
    by blast
  with demo_request it demo_result demo_total show ?thesis by simp
qed

subsection \<open>Joining the workers\<close>












subsection \<open>The highlight pass\<close>

lemma highlight_pass_reached:
  assumes "highlight_pass matcher item_substr_fn regexes_fn highlight_mode pre acc = Inr acc'"
    and "matcher (item_str_of item_substr_fn (fst (item m))) True = Inr None"
  shows "highlight_pass matcher item_substr_fn regexes_fn highlight_mode (pre @ m # post) acc =
           Inl (rematch_error (item_str_of item_substr_fn (fst (item m))))"
  using assms
proof (induction pre arbitrary: acc)
  case Nil
  then show ?case by (simp add: Let_def)
next
  case (Cons x pre)
  show ?case
  proof (cases "matcher (item_str_of item_substr_fn (fst (item x))) True")
    case (Inl msg)
    with Cons.prems(1) show ?thesis by (simp add: Let_def)
  next
    case (Inr r)
    note mx = this
    show ?thesis
    proof (cases r)
      case None
      with mx Cons.prems(1) show ?thesis by (simp add: Let_def)
    next
      case (Some p)
      obtain sc ps where p: "p = (sc, ps)" by (cases p)
      let ?np = "case item_substr_fn of None \<Rightarrow> ps
                 | Some f \<Rightarrow> (\<lambda>pos. fst (f (fst (item x))) + pos) ` ps"
      show ?thesis
      proof (cases "regexes_fn highlight_mode (fst (item x)) ?np acc")
        case (Inl msg)
        with mx Some p Cons.prems(1) show ?thesis by (simp add: Let_def)
      next
        case (Inr acc1)
        with mx Some p Cons.prems(1)
        have "highlight_pass matcher item_substr_fn regexes_fn highlight_mode pre acc1 = Inr acc'"
          by (simp add: Let_def)
        from Cons.IH[OF this Cons.prems(2)] mx Some p Inr show ?thesis
          by (simp add: Let_def)
      qed
    qed
  qed
qed

text \<open>
  C8. Take a request that reaches the highlight pass: every worker has been joined
  without an error, the host has raised nothing, and the highlight mode is neither empty
  nor "none". If the pass gets as far as a match \<open>m\<close> of the sorted list (the matches
  before it went through), and the matcher, asked again, says that \<open>m\<close> does not match,
  the request ends with the runtime error "failed to re-match known match '...' during
  highlight pass" and returns no result, not even a partial list.
\<close>

theorem rematch_failure_aborts:
  fixes env :: "'s env"
  assumes rm: "request_matcher env a = Inr matcher"
    and sb: "match_mode_item_substr_fn env (mmode_data a) = Inr item_substr_fn"
    and it: "items_obj a = Some iter"
    and qid: "\<not> 1 < length (query_inverting_delimiter_data a)"
    and jt: "join_threads (match_less env) matcher item_substr_fn (limit_of (limit_int a))
               [0..<nr_threads_of env a]
               (run_schedule (match_less env) matcher item_substr_fn (limit_of (limit_int a)) sched
                  (start_threads (nr_threads_of env a) iter)) 0 [] = (st, joined, Inr nr_matches)"
    and nex: "\<not> have_python_ex (fst st)"
    and hm: "highlight_mode_data a \<noteq> []" "highlight_mode_data a \<noteq> ''none''"
    and split: "sort_limit (match_less env) (concat (map matches (snd st))) (limit_of (limit_int a)) =
                  pre @ m # post"
    and reached: "highlight_pass matcher item_substr_fn (get_highlight_regexes env)
                    (highlight_mode_data a) pre [] = Inr regexes"
    and rej: "matcher (item_str_of item_substr_fn (fst (item m))) True = Inr None"
  shows "ctrlp_match env sched a =
           RuntimeError (rematch_error (item_str_of item_substr_fn (fst (item m)))) \<and>
         (\<forall>hs rs. ctrlp_match env sched a \<noteq> Result hs rs)"
proof -
  let ?all = "sort_limit (match_less env) (concat (map matches (snd st))) (limit_of (limit_int a))"
  let ?hp = "highlight_pass matcher item_substr_fn (get_highlight_regexes env)
               (highlight_mode_data a) ?all []"
  have cm: "ctrlp_match env sched a =
              (case ?hp of Inl msg \<Rightarrow> RuntimeError msg
               | Inr match_regexes \<Rightarrow> Result (map (\<lambda>m. snd (item m)) ?all) match_regexes)"
    using rm sb it qid jt nex hm by (simp add: ctrlp_match_eq finish_def Let_def)
  have "?hp = Inl (rematch_error (item_str_of item_substr_fn (fst (item m))))"
    unfolding split using reached rej by (rule highlight_pass_reached)
  with cm show ?thesis by simp
qed

lemma rematch_request:
  "request_matcher demo_env rematch_args = Inr (demo_matcher ''ab'')"
  "match_mode_item_substr_fn demo_env (mmode_data rematch_args) = Inr None"
  "items_obj rematch_args = Some (map Yield [PyString ''ab?'', PyString ''ab''])"
  "nr_threads_of demo_env rematch_args = 2"
  "limit_of (limit_int rematch_args) = 2"
  "\<not> 1 < length (query_inverting_delimiter_data rematch_args)"
  "highlight_mode_data rematch_args \<noteq> []"
  "highlight_mode_data rematch_args \<noteq> ''none''"
  by (simp_all add: rematch_args_def request_matcher_def inverted_query_def demo_env_def
      demo_args_def nr_threads_of_def max_threads_of_def get_nr_threads_def limit_of_def)

lemma rematch_join:
  "join_threads (match_less demo_env) (demo_matcher ''ab'') None 2 [0..<2]
     (run_schedule (match_less demo_env) (demo_matcher ''ab'') None 2 [1]
        (start_threads 2 (map Yield [PyString ''ab?'', PyString ''ab'']))) 0 [] =
   ((\<lparr>items_iter = [], end_of_python_iter = True, have_python_ex = False\<rparr>,
     [\<lparr>status = Returned, matches = [], unmatched_objs = []\<rparr>,
      \<lparr>status = Returned,
        matches = [Match (''ab?'', PyString ''ab?'') 3, Match (''ab'', PyString ''ab'') 2],
        unmatched_objs = []\<rparr>]),
    [0, 1], Inr 2)"
  by (simp add: demo_simps)

lemma rematch_sorted:
  "sort_limit (match_less demo_env)
     (concat (map matches
        [\<lparr>status = Returned, matches = [], unmatched_objs = []\<rparr>,
         \<lparr>status = Returned,
           matches = [Match (''ab?'', PyString ''ab?'') 3, Match (''ab'', PyString ''ab'') 2],
           unmatched_objs = []\<rparr>])) 2 =
   [Match (''ab'', PyString ''ab'') 2] @ Match (''ab?'', PyString ''ab?'') (3::nat) # []"
  by (simp add: sort_limit_def sort_by_def demo_env_def)

lemma rematch_reached:
  "highlight_pass (demo_matcher ''ab'') None (get_highlight_regexes demo_env)
     (highlight_mode_data rematch_args) [Match (''ab'', PyString ''ab'') 2] [] = Inr [''ab'']"
  by (simp add: demo_matcher_def demo_env_def item_str_of_def Let_def)

theorem rematch_failure_aborts_witness:
  "request_matcher demo_env rematch_args = Inr (demo_matcher ''ab'') \<and>
   highlight_mode_data rematch_args = ''basic'' \<and>
   demo_matcher ''ab'' ''ab?'' False = Inr (Some (3, {})) \<and>
   demo_matcher ''ab'' ''ab?'' True = Inr None \<and>
   ctrlp_match demo_env [1] rematch_args = RuntimeError (rematch_error ''ab?'')"
proof -
  let ?st = "(\<lparr>items_iter = [], end_of_python_iter = True, have_python_ex = False\<rparr>,
     [\<lparr>status = Returned, matches = [], unmatched_objs = []\<rparr>,
      \<lparr>status = Returned,
        matches = [Match (''ab?'', PyString ''ab?'') 3, Match (''ab'', PyString ''ab'') 2],
        unmatched_objs = []\<rparr>]) :: nat threads"
  let ?m = "Match (''ab?'', PyString ''ab?'') (3::nat)"
  have jt: "join_threads (match_less demo_env) (demo_matcher ''ab'') None
          (limit_of (limit_int rematch_args)) [0..<nr_threads_of demo_env rematch_args]
          (run_schedule (match_less demo_env) (demo_matcher ''ab'') None
             (limit_of (limit_int rematch_args)) [1]
             (start_threads (nr_threads_of demo_env rematch_args)
                (map Yield [PyString ''ab?'', PyString ''ab''])))
          0 [] = (?st, [0, 1], Inr 2)"
    using rematch_join by (simp only: rematch_request)
  have nex: "\<not> have_python_ex (fst ?st)" by simp
  have split: "sort_limit (match_less demo_env) (concat (map matches (snd ?st)))
                 (limit_of (limit_int rematch_args)) =
               [Match (''ab'', PyString ''ab'') 2] @ ?m # []"
    using rematch_sorted by (simp only: rematch_request snd_conv)
  have acc: "demo_matcher ''ab'' ''ab?'' False = Inr (Some (3, {}))"
    by (simp add: demo_matcher_def)
  have rej: "demo_matcher ''ab'' (item_str_of None (fst (item ?m))) True = Inr None"
    by (simp add: demo_matcher_def item_str_of_def)
  note r = rematch_failure_aborts[where env=demo_env and a=rematch_args
      and matcher="demo_matcher ''ab''" and item_substr_fn=None and sched="[1]" and st="?st"
      and m="?m" and iter="map Yield [PyString ''ab?'', PyString ''ab'']" and joined="[0, 1]"
      and nr_matches=2 and pre="[Match (''ab'', PyString ''ab'') 2]" and post="[]"
      and regexes="[''ab'']",
      OF rematch_request(1) rematch_request(2) rematch_request(3)
      rematch_request(6) jt nex rematch_request(7) rematch_request(8) split rematch_reached rej]
  then have res: "ctrlp_match demo_env [1] rematch_args = RuntimeError (rematch_error ''ab?'')"
    by (simp add: item_str_of_def)
  have hm: "highlight_mode_data rematch_args = ''basic''" by (simp add: rematch_args_def demo_args_def)
  from rej have rej': "demo_matcher ''ab'' ''ab?'' True = Inr None" by (simp add: item_str_of_def)
  from rematch_request(1) hm acc rej' res show ?thesis by blast
qed

end
